theory Spec2Isabelle
  imports Complex_Main "HOL-Library.Word" "HOL-Library.Sublist" "HOL-Library.Multiset"
begin


section \<open>Data model\<close>

text \<open>
  The Go struct \<open>FastqRead\<close>: three strings. A Go string is a sequence of bytes, here a
  \<open>char list\<close> (an Isabelle \<open>char\<close> is one byte).
\<close>

record FastqRead =
  Header :: string
  Sequence :: string
  Quality :: string

text \<open>
  Go's \<open>int\<close> on the platforms the repository builds for (amd64, arm64) is a 64-bit
  two's complement integer: \<open>-\<close> wraps around, comparisons are signed (\<open>sint\<close>).
\<close>

type_synonym go_int = "64 word"

text \<open>
  Go's \<open>float64\<close> is the IEEE-754 binary64 format, and its operations round their
  exact result to the nearest number of the format, ties to the even significand. The
  numbers of the format are \<open>m * 2 ^ e\<close> with \<open>\<bar>m\<bar> < 2 ^ 53\<close> and \<open>- 1074 \<le> e\<close>;
  \<open>round_even\<close> rounds a real number to the nearest integer, ties to even, and \<open>rnd\<close>
  rounds it to the nearest number of the format: the unit in the last place of \<open>x\<close> is
  \<open>2 ^ ulp_exp x\<close>, fifty-two binary places below the leading bit of \<open>x\<close>, and never
  below \<open>2 ^ - 1074\<close> (the subnormal numbers).
\<close>

definition round_even :: "real \<Rightarrow> int" where
  "round_even q =
     (let f = \<lfloor>q\<rfloor>; d = q - of_int f in
      if d < 1 / 2 then f else if 1 / 2 < d then f + 1 else if even f then f else f + 1)"

definition ulp_exp :: "real \<Rightarrow> int" where
  "ulp_exp x = max \<lfloor>log 2 \<bar>x\<bar>\<rfloor> (- 1022) - 52"

definition rnd :: "real \<Rightarrow> real" where
  "rnd x = (if x = 0 then 0
            else of_int (round_even (x / 2 powr of_int (ulp_exp x))) * 2 powr of_int (ulp_exp x))"

text \<open>
  A \<open>float64\<close> value: \<open>Finite r\<close> stands for the real number \<open>r\<close>, and the special
  values are kept apart because the comparison \<open>>=\<close> treats them specially (every
  comparison with NaN is false). \<open>f64_of_real\<close> is the \<open>float64\<close> that an operation with
  the exact result \<open>x\<close> returns: \<open>x\<close> rounded, or an infinity when the rounded value
  is beyond the largest finite number. The sign of zero is not kept: the program divides
  by a length only, so that nothing it computes tells the two zeros apart.
\<close>

datatype float64 = Finite real | PosInf | NegInf | NaN

definition f64_of_real :: "real \<Rightarrow> float64" where
  "f64_of_real x =
     (let r = rnd x in
      if 2 ^ 1024 \<le> r then PosInf else if r \<le> - (2 ^ 1024) then NegInf else Finite r)"

text \<open>The conversions \<open>float64(qual)\<close> of a byte and \<open>float64(len(quality))\<close> of a
  length.\<close>

definition float64_of_nat :: "nat \<Rightarrow> float64" where
  "float64_of_nat n = f64_of_real (real n)"

fun f64_neg :: "float64 \<Rightarrow> float64" where
  "f64_neg (Finite x) = Finite (- x)"
| "f64_neg PosInf = NegInf"
| "f64_neg NegInf = PosInf"
| "f64_neg NaN = NaN"

fun f64_add :: "float64 \<Rightarrow> float64 \<Rightarrow> float64" where
  "f64_add NaN _ = NaN"
| "f64_add _ NaN = NaN"
| "f64_add (Finite x) (Finite y) = f64_of_real (x + y)"
| "f64_add PosInf NegInf = NaN"
| "f64_add NegInf PosInf = NaN"
| "f64_add PosInf _ = PosInf"
| "f64_add _ PosInf = PosInf"
| "f64_add NegInf _ = NegInf"
| "f64_add _ NegInf = NegInf"

definition f64_sub :: "float64 \<Rightarrow> float64 \<Rightarrow> float64" where
  "f64_sub x y = f64_add x (f64_neg y)"

text \<open>Division by a divisor that is not negative, which is all the program needs (it
  divides by \<open>10.0\<close> and by \<open>float64(len(quality))\<close>): \<open>0/0\<close> is NaN, \<open>x/0\<close> an
  infinity.\<close>

fun f64_div :: "float64 \<Rightarrow> float64 \<Rightarrow> float64" where
  "f64_div (Finite x) (Finite y) =
     (if y = 0 then (if x = 0 then NaN else if 0 < x then PosInf else NegInf)
      else f64_of_real (x / y))"
| "f64_div NaN _ = NaN"
| "f64_div _ NaN = NaN"
| "f64_div PosInf (Finite y) = (if 0 \<le> y then PosInf else NegInf)"
| "f64_div NegInf (Finite y) = (if 0 \<le> y then NegInf else PosInf)"
| "f64_div (Finite x) _ = Finite 0"
| "f64_div _ _ = NaN"

text \<open>The comparison \<open>a >= b\<close> of two \<open>float64\<close> values.\<close>

fun f64_ge :: "float64 \<Rightarrow> float64 \<Rightarrow> bool" where
  "f64_ge NaN _ = False"
| "f64_ge _ NaN = False"
| "f64_ge (Finite x) (Finite y) = (y \<le> x)"
| "f64_ge PosInf _ = True"
| "f64_ge _ NegInf = True"
| "f64_ge _ _ = False"

text \<open>
  \<open>math.Pow(10, y)\<close> of Go's library, the only use the program makes of \<open>math.Pow\<close>.
  Its documentation gives the special cases (\<open>Pow(x, +Inf) = +Inf\<close> and
  \<open>Pow(x, -Inf) = 0\<close> for \<open>\<bar>x\<bar> > 1\<close>, \<open>Pow(x, NaN) = NaN\<close>, \<open>Pow(x, 0) = 1\<close>); for a
  finite exponent the result is taken to be the exact power, rounded. The library does
  not promise the last binary place of that result; it returns exactly this value for
  the exponents \<open>0\<close> and \<open>- 1\<close>, the two at which a statement below names the value of a
  power, and every other statement below about a power is a bound with room for far more
  than the last place.
\<close>

fun math_Pow10 :: "float64 \<Rightarrow> float64" where
  "math_Pow10 (Finite y) = f64_of_real (10 powr y)"
| "math_Pow10 PosInf = PosInf"
| "math_Pow10 NegInf = Finite 0"
| "math_Pow10 NaN = NaN"

section \<open>Quality conversion\<close>

text \<open>
  \<^verbatim>\<open>func phred33ToError(qual byte) float64 {
        return math.Pow(10, -(float64(qual)-33)/10.0) }\<close>
\<close>

definition phred33ToError :: "char \<Rightarrow> float64" where
  "phred33ToError qual =
     math_Pow10 (f64_div (f64_neg (f64_sub (float64_of_nat (of_char qual)) (Finite 33)))
                         (Finite 10))"

text \<open>
  \<^verbatim>\<open>func meanError(quality []byte) float64 {
        total := 0.0
        for _, q := range quality { total += phred33ToError(q) }
        return total / float64(len(quality)) }\<close>
\<close>

definition meanError :: "string \<Rightarrow> float64" where
  "meanError quality =
     f64_div (foldl (\<lambda>total q. f64_add total (phred33ToError q)) (Finite 0) quality)
             (float64_of_nat (length quality))"

section \<open>Slices and substring search\<close>

text \<open>
  The slice expression \<open>s[lo:hi]\<close> on a string: Go panics unless
  \<open>0 \<le> lo \<le> hi \<le> len(s)\<close>; \<open>None\<close> is the panic.
\<close>

definition go_slice :: "string \<Rightarrow> int \<Rightarrow> int \<Rightarrow> string option" where
  "go_slice s lo hi =
     (if 0 \<le> lo \<and> lo \<le> hi \<and> hi \<le> int (length s)
      then Some (take (nat (hi - lo)) (drop (nat lo) s)) else None)"

text \<open>
  \<open>strings.Index(s, substr)\<close> of the Go standard library: the index of the first
  instance of \<open>substr\<close> in \<open>s\<close>, or \<open>-1\<close> if \<open>substr\<close> is not present in \<open>s\<close>.
  The search tries each position from the left.
\<close>

fun indexFrom :: "string \<Rightarrow> string \<Rightarrow> nat option" where
  "indexFrom [] substr = (if substr = [] then Some 0 else None)"
| "indexFrom (c # cs) substr =
     (if prefix substr (c # cs) then Some 0 else map_option Suc (indexFrom cs substr))"

definition strings_Index :: "string \<Rightarrow> string \<Rightarrow> int" where
  "strings_Index s substr = (case indexFrom s substr of None \<Rightarrow> - 1 | Some i \<Rightarrow> int i)"

section \<open>The trimming decision\<close>

text \<open>
  \<open>trimRead\<close> returns \<open>(*FastqRead, error)\<close>; the error is made by \<open>fmt.Errorf\<close> from
  one of three fixed messages, and the caller tells them apart by that message. A slice
  out of range panics. So the result is a trimmed read, an error message, or a panic.
\<close>

datatype trim_result = Ok FastqRead | Err string | Panic

definition AdapterMissing :: trim_result where
  "AdapterMissing = Err ''adapter missing''"

definition TooShort :: trim_result where
  "TooShort = Err ''too short''"

definition LowQuality :: trim_result where
  "LowQuality = Err ''low quality''"

definition trimRead ::
  "FastqRead \<Rightarrow> string \<Rightarrow> go_int \<Rightarrow> go_int \<Rightarrow> go_int \<Rightarrow> go_int \<Rightarrow> float64 \<Rightarrow> trim_result"
where
  "trimRead read adapter minLen trim5 trim3 min5Match maxError =
     (case go_slice adapter 0 (sint min5Match) of
        None \<Rightarrow> Panic
      | Some pre \<Rightarrow>
          let adapterIndex = strings_Index (Sequence read) pre in
          if adapterIndex = - 1 then Err ''adapter missing''
          else
            let start = trim5;
                end = (word_of_int adapterIndex :: go_int) - trim3 in
            if sint (end - start) < sint minLen then Err ''too short''
            else
              (case go_slice (Sequence read) (sint start) (sint end) of
                 None \<Rightarrow> Panic
               | Some trimmedSequence \<Rightarrow>
                   (case go_slice (Quality read) (sint start) (sint end) of
                      None \<Rightarrow> Panic
                    | Some trimmedQuality \<Rightarrow>
                        if f64_ge (meanError trimmedQuality) maxError
                        then Err ''low quality''
                        else Ok \<lparr>Header = Header read,
                                 Sequence = trimmedSequence,
                                 Quality = trimmedQuality\<rparr>)))"

section \<open>The record source\<close>

text \<open>
  The input of \<open>ProcessReadsFast\<close> is a compressed file; the parsing loop reads the
  decompressed stream through a \<open>bufio.Scanner\<close> with the default split function
  \<open>ScanLines\<close> and the default buffer. The model starts from the lines of that stream
  (the text between its newlines, in order): opening the files, decompression and a read
  error of the underlying reader are outside it.

  \<open>ScanLines\<close> removes one carriage return from the end of a line (\<open>dropCR\<close>). The
  buffer of the scanner grows to \<open>MaxScanTokenSize\<close> bytes and no further, so a line
  is delivered only when it is shorter than that. \<open>Scan\<close> advances to the next line and
  reports whether there was one; after it has reported the end of the input, \<open>Text\<close> is
  the empty string. At a line that is too long \<open>Scan\<close> records the error \<open>ErrTooLong\<close>
  and returns false, leaving the token as it was and reading no more input; the next call
  delivers the content of the full buffer, the first \<open>MaxScanTokenSize\<close> bytes of that
  line, as a token, and every later call returns false with an empty token.
\<close>

definition MaxScanTokenSize :: nat where
  "MaxScanTokenSize = 64 * 1024"

definition dropCR :: "string \<Rightarrow> string" where
  "dropCR data = (if data \<noteq> [] \<and> last data = CHR 0x0D then butlast data else data)"

record Scanner =
  unread :: "string list"
  token :: string
  buffered :: "string option"
  tooLong :: bool

definition NewScanner :: "string list \<Rightarrow> Scanner" where
  "NewScanner ls = \<lparr>unread = ls, token = [], buffered = None, tooLong = False\<rparr>"

definition Scan :: "Scanner \<Rightarrow> bool \<times> Scanner" where
  "Scan sc =
     (if tooLong sc then
        (case buffered sc of
           Some data \<Rightarrow> (True, sc\<lparr>token := dropCR data, buffered := None\<rparr>)
         | None \<Rightarrow> (False, sc\<lparr>token := []\<rparr>))
      else
        (case unread sc of
           [] \<Rightarrow> (False, sc\<lparr>token := []\<rparr>)
         | l # ls \<Rightarrow>
             if length l < MaxScanTokenSize
             then (True, sc\<lparr>unread := ls, token := dropCR l\<rparr>)
             else (False, sc\<lparr>unread := [], buffered := Some (take MaxScanTokenSize l),
                              tooLong := True\<rparr>)))"

definition Text :: "Scanner \<Rightarrow> string" where
  "Text sc = token sc"

text \<open>
  The fatal errors of a run: the three structural errors of the parsing loop (with the
  data their messages print), the error of the scanner (\<open>error reading file\<close>) and a
  failed write.
\<close>

datatype error =
    BadHeader string
  | BadSeparator string
  | LengthMismatch nat nat
  | ReadError
  | WriteError

text \<open>\<open>scanner.Err()\<close>: the error recorded by \<open>Scan\<close>, if any (the end of the input is
  not an error).\<close>

definition Scanner_Err :: "Scanner \<Rightarrow> error option" where
  "Scanner_Err sc = (if tooLong sc then Some ReadError else None)"

text \<open>
  The body of the parsing loop, entered after the loop condition \<open>scanner.Scan()\<close> has
  succeeded. The results of the three inner calls of \<open>Scan\<close> are not looked at.
\<close>

definition readRecord :: "Scanner \<Rightarrow> error + (FastqRead \<times> Scanner)" where
  "readRecord sc0 =
     (let header = Text sc0 in
      if \<not> prefix ''@'' header then Inl (BadHeader header)
      else
        let sc1 = snd (Scan sc0); sequence = Text sc1;
            sc2 = snd (Scan sc1); plus = Text sc2 in
        if plus \<noteq> ''+'' then Inl (BadSeparator plus)
        else
          let sc3 = snd (Scan sc2); quality = Text sc3 in
          if length sequence \<noteq> length quality
          then Inl (LengthMismatch (length sequence) (length quality))
          else Inr (\<lparr>Header = header, Sequence = sequence, Quality = quality\<rparr>, sc3))"

type_synonym int64 = "64 word"

text \<open>
  The parsing loop with its three variables: the batch being filled (\<open>reads\<close>), the
  batches already handed to a goroutine, in the order of dispatch, and \<open>totalReads\<close>.
  It returns the first structural error, or, when \<open>Scan\<close> returns false, the scanner
  and the three variables as they are then.
\<close>

function scanLoop ::
  "nat \<Rightarrow> Scanner \<Rightarrow> FastqRead list \<Rightarrow> FastqRead list list \<Rightarrow> int64
     \<Rightarrow> error + (Scanner \<times> FastqRead list \<times> FastqRead list list \<times> int64)"
where
  "scanLoop bsz sc batch dispatched totalReads =
     (case Scan sc of
        (False, sc') \<Rightarrow> Inr (sc', batch, dispatched, totalReads)
      | (True, sc0) \<Rightarrow>
          (case readRecord sc0 of
             Inl e \<Rightarrow> Inl e
           | Inr (r, sc3) \<Rightarrow>
               if length (batch @ [r]) = bsz
               then scanLoop bsz sc3 [] (dispatched @ [batch @ [r]]) (totalReads + 1)
               else scanLoop bsz sc3 (batch @ [r]) dispatched (totalReads + 1)))"
  by pat_completeness auto

termination scanLoop
proof -
  let ?m = "\<lambda>sc. 2 * length (unread sc) + (case buffered sc of None \<Rightarrow> 0 | Some data \<Rightarrow> (1::nat))"
  have le: "?m (snd (Scan sc)) \<le> ?m sc" for sc
    by (auto simp: Scan_def split: option.splits list.splits)
  have lt: "Scan sc = (True, sc0) \<Longrightarrow> ?m sc0 < ?m sc" for sc sc0
    by (auto simp: Scan_def split: option.splits list.splits if_splits)
  have rr: "readRecord sc0 = Inr (r, sc3) \<Longrightarrow> ?m sc3 \<le> ?m sc0" for sc0 r sc3
  proof -
    assume "readRecord sc0 = Inr (r, sc3)"
    then have eq: "sc3 = snd (Scan (snd (Scan (snd (Scan sc0)))))"
      by (simp add: readRecord_def Let_def split: if_splits)
    show ?thesis unfolding eq by (rule order_trans [OF le order_trans [OF le le]])
  qed
  have key: "?m y < ?m sc" if "(xa, x2) = Scan sc" "xa" "readRecord x2 = Inr x2a" "(xb, y) = x2a"
    for xa x2 sc x2a xb y
  proof -
    from that(1,2) have "Scan sc = (True, x2)" by (cases xa) simp_all
    then have a: "?m x2 < ?m sc" by (rule lt)
    from that(3,4) have "readRecord x2 = Inr (xb, y)" by simp
    then have "?m y \<le> ?m x2" by (rule rr)
    then show ?thesis using a by (rule le_less_trans)
  qed
  show ?thesis
    by (relation "measure (\<lambda>(bsz, sc, batch, dispatched, totalReads). ?m sc)")
       (simp_all only: in_measure prod.case wf_measure,
        (rule key, assumption, simp, assumption, assumption)+)
qed

declare scanLoop.simps [simp del]

text \<open>
  The parsing part of \<open>ProcessReadsFast\<close>: the loop from the start of the stream, the
  check of \<open>scanner.Err()\<close> after it, then the dispatch of the remaining reads if there
  are any. The result is the error, or the batches handed to goroutines and the final
  \<open>totalReads\<close>.
\<close>

definition parseAndDispatch :: "nat \<Rightarrow> string list \<Rightarrow> error + (FastqRead list list \<times> int64)" where
  "parseAndDispatch bsz ls =
     (case scanLoop bsz (NewScanner ls) [] [] 0 of
        Inl e \<Rightarrow> Inl e
      | Inr (sc, batch, dispatched, totalReads) \<Rightarrow>
          (case Scanner_Err sc of
             Some e \<Rightarrow> Inl e
           | None \<Rightarrow>
               Inr (if 0 < length batch then dispatched @ [batch] else dispatched, totalReads)))"

section \<open>The output sink\<close>

text \<open>
  The \<open>bufio.Writer\<close> on top of the compressor and the output file. Whether a write
  fails is decided by the environment; \<open>budget\<close> is the number of calls of
  \<open>WriteString\<close> that will still succeed. A failed writer stays failed (\<open>bufio.Writer\<close>
  accepts no more data after an error), and a failed call appends nothing.
\<close>

record Writer =
  written :: string
  budget :: nat

definition WriteString :: "Writer \<Rightarrow> string \<Rightarrow> Writer \<times> error option" where
  "WriteString wr s =
     (if budget wr = 0 then (wr, Some WriteError)
      else (\<lparr>written = written wr @ s, budget = budget wr - 1\<rparr>, None))"

definition newline :: string where
  "newline = [CHR 0x0A]"

text \<open>
  \<open>writeTrimmedReads\<close> of the buffering version: four writes per read, and the first
  error is returned at once.
\<close>

fun writeTrimmedReads :: "FastqRead list \<Rightarrow> Writer \<Rightarrow> error option \<times> Writer" where
  "writeTrimmedReads [] wr = (None, wr)"
| "writeTrimmedReads (r # rs) wr =
     (case WriteString wr (Header r @ newline) of
        (w1, Some err) \<Rightarrow> (Some err, w1)
      | (w1, None) \<Rightarrow>
     (case WriteString w1 (Sequence r @ newline) of
        (w2, Some err) \<Rightarrow> (Some err, w2)
      | (w2, None) \<Rightarrow>
     (case WriteString w2 (''+'' @ newline) of
        (w3, Some err) \<Rightarrow> (Some err, w3)
      | (w3, None) \<Rightarrow>
     (case WriteString w3 (Quality r @ newline) of
        (w4, Some err) \<Rightarrow> (Some err, w4)
      | (w4, None) \<Rightarrow> writeTrimmedReads rs w4))))"

text \<open>
  The body of the loop of \<open>writeResults\<close>, the writer goroutine of the streaming
  version: the same four writes, the results of which are dropped.
\<close>

definition writeResult :: "Writer \<Rightarrow> FastqRead \<Rightarrow> Writer" where
  "writeResult wr r =
     (let w1 = fst (WriteString wr (Header r @ newline));
          w2 = fst (WriteString w1 (Sequence r @ newline));
          w3 = fst (WriteString w2 (''+'' @ newline));
          w4 = fst (WriteString w3 (Quality r @ newline))
      in w4)"

section \<open>The batch pipeline\<close>

text \<open>
  The parameters of a run, which every goroutine reads and none changes.
\<close>

record TrimParams =
  Adapter :: string
  MinLen :: go_int
  Trim5 :: go_int
  Trim3 :: go_int
  Min5Match :: go_int
  MaxError :: float64

definition trim :: "TrimParams \<Rightarrow> FastqRead \<Rightarrow> trim_result" where
  "trim p r = trimRead r (Adapter p) (MinLen p) (Trim5 p) (Trim3 p) (Min5Match p) (MaxError p)"

text \<open>
  What the goroutines share. \<open>workers\<close> holds, for every goroutine running
  \<open>processBatch\<close>, the reads of its batch that it has not processed yet; the three
  counters are the \<open>int64\<close> variables updated with \<open>atomic.AddInt64\<close>. The buffering
  version adds the slice \<open>trimmedReads\<close> (appended to under the mutex); the streaming
  version adds the channel \<open>resultsChan\<close>, the writer goroutine's \<open>bufio.Writer\<close> and its
  counter \<open>totalTrimmedReads\<close>.
\<close>

record Pool =
  workers :: "FastqRead list list"
  adapterMissingCount :: int64
  tooShortCount :: int64
  lowQualityCount :: int64

record BufferedPool = Pool +
  trimmedReads :: "FastqRead list"

record StreamPool = Pool +
  resultsChan :: "FastqRead list"
  outWriter :: Writer
  totalTrimmedReads :: int64

text \<open>
  The \<open>switch err.Error()\<close> of \<open>processBatch\<close>: three cases and no default.
\<close>

definition countRejection :: "string \<Rightarrow> 'a Pool_scheme \<Rightarrow> 'a Pool_scheme" where
  "countRejection msg st =
     (if msg = ''adapter missing'' then st\<lparr>adapterMissingCount := adapterMissingCount st + 1\<rparr>
      else if msg = ''too short'' then st\<lparr>tooShortCount := tooShortCount st + 1\<rparr>
      else if msg = ''low quality'' then st\<lparr>lowQualityCount := lowQualityCount st + 1\<rparr>
      else st)"

text \<open>
  One iteration of the loop of \<open>processBatch\<close> in the buffering version, on the shared
  state. A panic of \<open>trimRead\<close> ends the process: there is no next state (\<open>None\<close>).
\<close>

definition processOne :: "TrimParams \<Rightarrow> FastqRead \<Rightarrow> BufferedPool \<Rightarrow> BufferedPool option" where
  "processOne p r st =
     (case trim p r of
        Panic \<Rightarrow> None
      | Err msg \<Rightarrow> Some (countRejection msg st)
      | Ok t \<Rightarrow> Some (st\<lparr>trimmedReads := trimmedReads st @ [t]\<rparr>))"

text \<open>
  \<open>processBatch\<close> run alone on a batch: the loop over the reads.
\<close>

fun processBatch :: "TrimParams \<Rightarrow> FastqRead list \<Rightarrow> BufferedPool \<Rightarrow> BufferedPool option" where
  "processBatch p [] st = Some st"
| "processBatch p (r # batch) st =
     (case processOne p r st of None \<Rightarrow> None | Some st' \<Rightarrow> processBatch p batch st')"

text \<open>
  The goroutines run concurrently. Each iteration of a goroutine's loop touches the
  shared state in one atomic operation (an atomic add, or an append under the mutex),
  and \<open>trimRead\<close> itself is a pure function, so an execution is an interleaving of
  loop iterations: in one step, some goroutine \<open>k\<close> with a read left processes it.
\<close>

inductive step :: "TrimParams \<Rightarrow> BufferedPool \<Rightarrow> BufferedPool \<Rightarrow> bool" for p where
  iteration:
    "k < length (workers st) \<Longrightarrow> workers st ! k = r # rest \<Longrightarrow>
     processOne p r st = Some st' \<Longrightarrow>
     step p st (st'\<lparr>workers := (workers st)[k := rest]\<rparr>)"

code_pred step .

text \<open>
  \<open>wg.Wait()\<close> returns when every goroutine has finished its batch.
\<close>

definition joined :: "'a Pool_scheme \<Rightarrow> bool" where
  "joined st \<longleftrightarrow> list_all (\<lambda>w. w = []) (workers st)"

definition initBuffered :: "FastqRead list list \<Rightarrow> BufferedPool" where
  "initBuffered batches =
     \<lparr>workers = batches, adapterMissingCount = 0, tooShortCount = 0, lowQualityCount = 0,
      trimmedReads = []\<rparr>"

text \<open>
  The streaming version. A goroutine sends a surviving read on \<open>resultsChan\<close>, a
  channel with a buffer of 1000 reads, and blocks while the buffer is full; the writer
  goroutine receives the reads in the order they were sent, writes each and counts it.
\<close>

definition chanCapacity :: nat where
  "chanCapacity = 1000"

inductive stepS :: "TrimParams \<Rightarrow> StreamPool \<Rightarrow> StreamPool \<Rightarrow> bool" for p where
  reject:
    "k < length (workers st) \<Longrightarrow> workers st ! k = r # rest \<Longrightarrow> trim p r = Err msg \<Longrightarrow>
     stepS p st (countRejection msg (st\<lparr>workers := (workers st)[k := rest]\<rparr>))"
| send:
    "k < length (workers st) \<Longrightarrow> workers st ! k = r # rest \<Longrightarrow> trim p r = Ok t \<Longrightarrow>
     length (resultsChan st) < chanCapacity \<Longrightarrow>
     stepS p st (st\<lparr>workers := (workers st)[k := rest], resultsChan := resultsChan st @ [t]\<rparr>)"
| receive:
    "resultsChan st = t # ch \<Longrightarrow>
     stepS p st (st\<lparr>resultsChan := ch, outWriter := writeResult (outWriter st) t,
                    totalTrimmedReads := totalTrimmedReads st + 1\<rparr>)"

code_pred stepS .

definition initStream :: "FastqRead list list \<Rightarrow> Writer \<Rightarrow> StreamPool" where
  "initStream batches wr =
     \<lparr>workers = batches, adapterMissingCount = 0, tooShortCount = 0, lowQualityCount = 0,
      resultsChan = [], outWriter = wr, totalTrimmedReads = 0\<rparr>"

section \<open>The runs\<close>

text \<open>
  The statistics a successful run prints.
\<close>

record Statistics =
  total :: int64
  trimmed :: int64
  adapterMissing :: int64
  tooShort :: int64
  lowQuality :: int64

text \<open>
  \<open>ProcessReadsFast\<close> of the buffering version, from the lines of the input and the
  output writer to what it returns (the error, or \<open>nil\<close> with the statistics it has
  printed) and the writer at the end. The parsing loop is taken first and the goroutines
  after it: they share nothing with the loop, so every interleaving of the two ends in
  the same states as one of these. A structural error returns at once, whatever the
  goroutines started so far are doing. Otherwise the run waits for the goroutines,
  counts and writes the trimmed reads and returns the error of the writing, if any; the
  results of \<open>Flush\<close> and \<open>Close\<close> are not looked at. A panic of \<open>trimRead\<close> in a
  goroutine ends the process: an execution in which it happens never joins, and such a
  run returns nothing. (A panic in a goroutine that is already running while the loop
  meets a structural error could end the process before the error is returned; the
  relation does not follow this race.)
\<close>

inductive runBuffered ::
  "nat \<Rightarrow> TrimParams \<Rightarrow> string list \<Rightarrow> Writer \<Rightarrow> (error + Statistics) \<times> Writer \<Rightarrow> bool"
  for bsz p ls wr
where
  structural:
    "parseAndDispatch bsz ls = Inl e \<Longrightarrow> runBuffered bsz p ls wr (Inl e, wr)"
| write_failed:
    "parseAndDispatch bsz ls = Inr (batches, totalReads) \<Longrightarrow>
     rtranclp (step p) (initBuffered batches) fin \<Longrightarrow> joined fin \<Longrightarrow>
     writeTrimmedReads (trimmedReads fin) wr = (Some e, wr') \<Longrightarrow>
     runBuffered bsz p ls wr (Inl e, wr')"
| completed:
    "parseAndDispatch bsz ls = Inr (batches, totalReads) \<Longrightarrow>
     rtranclp (step p) (initBuffered batches) fin \<Longrightarrow> joined fin \<Longrightarrow>
     writeTrimmedReads (trimmedReads fin) wr = (None, wr') \<Longrightarrow>
     runBuffered bsz p ls wr
       (Inr \<lparr>total = totalReads, trimmed = word_of_nat (length (trimmedReads fin)),
             adapterMissing = adapterMissingCount fin, tooShort = tooShortCount fin,
             lowQuality = lowQualityCount fin\<rparr>, wr')"

definition batchSize :: nat where
  "batchSize = 1000000"

definition ProcessReadsFast ::
  "TrimParams \<Rightarrow> string list \<Rightarrow> Writer \<Rightarrow> (error + Statistics) \<times> Writer \<Rightarrow> bool" where
  "ProcessReadsFast = runBuffered batchSize"

text \<open>
  \<open>ProcessReadsFast\<close> of the streaming version. After the goroutines have finished, the
  channel is closed and the writer goroutine drains it; then the run returns \<open>nil\<close>.
\<close>

inductive runStream ::
  "nat \<Rightarrow> TrimParams \<Rightarrow> string list \<Rightarrow> Writer \<Rightarrow> (error + Statistics) \<times> Writer \<Rightarrow> bool"
  for bsz p ls wr
where
  structuralS:
    "parseAndDispatch bsz ls = Inl e \<Longrightarrow> runStream bsz p ls wr (Inl e, wr)"
| completedS:
    "parseAndDispatch bsz ls = Inr (batches, totalReads) \<Longrightarrow>
     rtranclp (stepS p) (initStream batches wr) fin \<Longrightarrow>
     joined fin \<Longrightarrow> resultsChan fin = [] \<Longrightarrow>
     runStream bsz p ls wr
       (Inr \<lparr>total = totalReads, trimmed = totalTrimmedReads fin,
             adapterMissing = adapterMissingCount fin, tooShort = tooShortCount fin,
             lowQuality = lowQualityCount fin\<rparr>, outWriter fin)"

definition streamBatchSize :: nat where
  "streamBatchSize = 10000"

definition ProcessReadsFast_stream ::
  "TrimParams \<Rightarrow> string list \<Rightarrow> Writer \<Rightarrow> (error + Statistics) \<times> Writer \<Rightarrow> bool" where
  "ProcessReadsFast_stream = runStream streamBatchSize"

section \<open>Auxiliary notions used in the statements\<close>

text \<open>
  The specification's words for the quality filter, in real numbers: the error
  probability \<open>10 ^ (- (code - 33) / 10)\<close> of one quality character, and the mean of
  these over a window.
\<close>

definition perr :: "char \<Rightarrow> real" where
  "perr q = 10 powr (- (real (of_char q) - 33) / 10)"

definition exact_mean :: "string \<Rightarrow> real" where
  "exact_mean w = (\<Sum>c\<leftarrow>w. perr c) / real (length w)"

text \<open>
  The specification's words for the adapter search: position \<open>i\<close> is the leftmost
  occurrence of \<open>substr\<close> in \<open>s\<close> when \<open>substr\<close> starts at \<open>i\<close> and at no earlier
  position.
\<close>

definition leftmost_occurrence :: "string \<Rightarrow> string \<Rightarrow> nat \<Rightarrow> bool" where
  "leftmost_occurrence s substr i \<longleftrightarrow>
     i \<le> length s \<and> prefix substr (drop i s) \<and> (\<forall>j \<in> {..<i}. \<not> prefix substr (drop j s))"

text \<open>
  The specification's view of the stream: records of four lines each (identifier,
  sequence, separator, quality), taken from the front. A carriage return before the
  newline belongs to the line ending, not to the line. When the stream ends inside the
  last record, its missing lines count as empty.
\<close>

definition line :: "string list \<Rightarrow> nat \<Rightarrow> string" where
  "line ls n = (if n < length ls then dropCR (ls ! n) else [])"

fun records :: "string list \<Rightarrow> (string \<times> string \<times> string \<times> string) list" where
  "records [] = []"
| "records (h # rest) = (dropCR h, line rest 0, line rest 1, line rest 2) # records (drop 3 rest)"

text \<open>
  The streams in which every line is shorter than the buffer of the scanner.
\<close>

definition short_lines :: "string list \<Rightarrow> bool" where
  "short_lines ls = list_all (\<lambda>l. length l < MaxScanTokenSize) ls"

text \<open>
  The three structural checks on a record, in the order the specification lists them,
  and the error of the first check that fails.
\<close>

definition wellformed :: "string \<times> string \<times> string \<times> string \<Rightarrow> bool" where
  "wellformed rec = (case rec of (h, s, sep, q) \<Rightarrow>
     prefix ''@'' h \<and> sep = ''+'' \<and> length s = length q)"

definition record_error :: "string \<times> string \<times> string \<times> string \<Rightarrow> error" where
  "record_error rec = (case rec of (h, s, sep, q) \<Rightarrow>
     if \<not> prefix ''@'' h then BadHeader h
     else if sep \<noteq> ''+'' then BadSeparator sep
     else LengthMismatch (length s) (length q))"

definition to_read :: "string \<times> string \<times> string \<times> string \<Rightarrow> FastqRead" where
  "to_read rec = (case rec of (h, s, sep, q) \<Rightarrow> \<lparr>Header = h, Sequence = s, Quality = q\<rparr>)"

text \<open>
  What a list of reads must give, whatever the schedule: the reads that survive
  trimming, and the number of reads rejected with a given message.
\<close>

definition survivors :: "TrimParams \<Rightarrow> FastqRead list \<Rightarrow> FastqRead list" where
  "survivors p rs = concat (map (\<lambda>r. case trim p r of Ok t \<Rightarrow> [t] | _ \<Rightarrow> []) rs)"

definition rejected :: "TrimParams \<Rightarrow> string \<Rightarrow> FastqRead list \<Rightarrow> nat" where
  "rejected p msg rs = length (filter (\<lambda>r. trim p r = Err msg) rs)"

definition pending :: "'a Pool_scheme \<Rightarrow> FastqRead list" where
  "pending st = concat (workers st)"

text \<open>
  The text of one read in the output, as the specification of the output sink has it:
  identifier, sequence, the separator \<open>+\<close> and quality, each ended by a newline.
\<close>

definition fastqText :: "FastqRead \<Rightarrow> string" where
  "fastqText r = Header r @ newline @ Sequence r @ newline @ ''+'' @ newline @ Quality r @ newline"

section \<open>Test data\<close>

text \<open>
  The data of the repository's test of a whole run (\<open>TestProcessReadsFast\<close>): the
  parameters, the four lines of the input and the read they make; and a second read, in
  which the adapter does not occur.
\<close>

definition test_params :: TrimParams where
  "test_params = \<lparr>Adapter = ''ATCC'', MinLen = 4, Trim5 = 0, Trim3 = 0, Min5Match = 4,
                   MaxError = Finite (1 / 10)\<rparr>"

definition test_input :: "string list" where
  "test_input = [''@READ1'', ''ATCGATCC'', ''+'', ''IIIIIIII'']"

definition test_read :: FastqRead where
  "test_read = \<lparr>Header = ''@READ1'', Sequence = ''ATCGATCC'', Quality = ''IIIIIIII''\<rparr>"

definition test_trimmed :: FastqRead where
  "test_trimmed = \<lparr>Header = ''@READ1'', Sequence = ''ATCG'', Quality = ''IIII''\<rparr>"

definition test_read2 :: FastqRead where
  "test_read2 = \<lparr>Header = ''@READ2'', Sequence = ''ATCGATCG'', Quality = ''IIIIIIII''\<rparr>"

text \<open>
  An input of two records, the reads of which are \<open>test_read\<close> and \<open>test_read2\<close>.
\<close>

definition test_input2 :: "string list" where
  "test_input2 = [''@READ1'', ''ATCGATCC'', ''+'', ''IIIIIIII'',
                  ''@READ2'', ''ATCGATCG'', ''+'', ''IIIIIIII'']"

section \<open>Lemmas about rounding\<close>

lemma round_even_of_int: "round_even (of_int n) = n"
  by (simp add: round_even_def)

lemma round_even_bounds: "\<lfloor>q\<rfloor> \<le> round_even q \<and> round_even q \<le> \<lfloor>q\<rfloor> + 1"
  by (simp add: round_even_def Let_def)

lemma round_even_mono: 
  assumes le: "q \<le> q'" shows "round_even q \<le> round_even q'"
proof -
  have f: "\<lfloor>q\<rfloor> \<le> \<lfloor>q'\<rfloor>" using le by (rule floor_mono)
  show ?thesis
  proof (cases "\<lfloor>q\<rfloor> = \<lfloor>q'\<rfloor>")
    case True
    with le show ?thesis by (auto simp: round_even_def Let_def)
  next
    case False
    with f have "\<lfloor>q\<rfloor> + 1 \<le> \<lfloor>q'\<rfloor>" by simp
    with round_even_bounds [of q] round_even_bounds [of q'] show ?thesis by linarith
  qed
qed

lemma round_even_le_int: "q \<le> of_int n \<Longrightarrow> round_even q \<le> n"
  using round_even_mono [of q "of_int n"] by (simp add: round_even_of_int)

lemma round_even_ge_int: "of_int n \<le> q \<Longrightarrow> n \<le> round_even q"
  using round_even_mono [of "of_int n" q] by (simp add: round_even_of_int)

lemma ulp_exp_ge: "- 1074 \<le> ulp_exp x"
  by (simp add: ulp_exp_def)

lemma ulp_exp_upper:
  assumes "x \<noteq> 0" shows "\<bar>x\<bar> < 2 powr (of_int (ulp_exp x) + 53)"
proof -
  have "log 2 \<bar>x\<bar> < of_int \<lfloor>log 2 \<bar>x\<bar>\<rfloor> + 1" by linarith
  also have "\<dots> \<le> of_int (ulp_exp x) + 53" by (simp add: ulp_exp_def)
  finally have "2 powr (log 2 \<bar>x\<bar>) < 2 powr (of_int (ulp_exp x) + 53)"
    by simp
  with assms show ?thesis by simp
qed

lemma ulp_exp_lower:
  assumes "x \<noteq> 0" "- 1074 < ulp_exp x" shows "2 powr (of_int (ulp_exp x) + 52) \<le> \<bar>x\<bar>"
proof -
  from assms(2) have "ulp_exp x = \<lfloor>log 2 \<bar>x\<bar>\<rfloor> - 52" by (simp add: ulp_exp_def max_def split: if_splits)
  then have "of_int (ulp_exp x) + 52 \<le> log 2 \<bar>x\<bar>" by simp
  then have "2 powr (of_int (ulp_exp x) + 52) \<le> 2 powr (log 2 \<bar>x\<bar>)"
    by simp
  with assms show ?thesis by simp
qed

lemma ulp_exp_mono:
  assumes "x \<noteq> 0" "\<bar>x\<bar> \<le> \<bar>y\<bar>" shows "ulp_exp x \<le> ulp_exp y"
proof -
  from assms have "log 2 \<bar>x\<bar> \<le> log 2 \<bar>y\<bar>" by simp
  then have "\<lfloor>log 2 \<bar>x\<bar>\<rfloor> \<le> \<lfloor>log 2 \<bar>y\<bar>\<rfloor>" by (rule floor_mono)
  then show ?thesis by (simp add: ulp_exp_def)
qed

lemma rnd_nonneg: "0 \<le> x \<Longrightarrow> 0 \<le> rnd x"
  using round_even_ge_int [of 0 "x / 2 powr of_int (ulp_exp x)"] by (simp add: rnd_def)

lemma rnd_nonpos: "x \<le> 0 \<Longrightarrow> rnd x \<le> 0"
  using round_even_le_int [of "x / 2 powr of_int (ulp_exp x)" 0]
  by (simp add: rnd_def divide_le_0_iff mult_le_0_iff)

lemma rnd_pos_upper:
  assumes "0 < x" shows "rnd x \<le> 2 powr (of_int (ulp_exp x) + 53)"
proof -
  let ?u = "2 powr of_int (ulp_exp x)"
  from assms ulp_exp_upper [of x] have "x < ?u * 2 powr 53" by (simp add: powr_add)
  then have "x / ?u \<le> of_int (2 ^ 53)" by (simp add: pos_divide_le_eq mult.commute)
  then have "round_even (x / ?u) \<le> 2 ^ 53" by (rule round_even_le_int)
  then have "real_of_int (round_even (x / ?u)) \<le> real_of_int (2 ^ 53)" by (simp only: of_int_le_iff)
  then have "of_int (round_even (x / ?u)) \<le> (2 ^ 53 :: real)" by simp
  then have "real_of_int (round_even (x / ?u)) * ?u \<le> 2 ^ 53 * ?u" by (simp add: mult_right_mono)
  with assms show ?thesis by (simp add: rnd_def powr_add mult.commute)
qed

lemma rnd_pos_lower:
  assumes "0 < x" "- 1074 < ulp_exp x" shows "2 powr (of_int (ulp_exp x) + 52) \<le> rnd x"
proof -
  let ?u = "2 powr of_int (ulp_exp x)"
  from assms ulp_exp_lower [of x] have "?u * 2 powr 52 \<le> x" by (simp add: powr_add)
  then have "of_int (2 ^ 52) \<le> x / ?u" by (simp add: pos_le_divide_eq mult.commute)
  then have "2 ^ 52 \<le> round_even (x / ?u)" by (rule round_even_ge_int)
  then have "real_of_int (2 ^ 52) \<le> real_of_int (round_even (x / ?u))" by (simp only: of_int_le_iff)
  then have "(2 ^ 52 :: real) \<le> of_int (round_even (x / ?u))" by simp
  then have "2 ^ 52 * ?u \<le> real_of_int (round_even (x / ?u)) * ?u" by (simp add: mult_right_mono)
  with assms show ?thesis by (simp add: rnd_def powr_add mult.commute)
qed

lemma rnd_neg_lower:
  assumes "x < 0" shows "- (2 powr (of_int (ulp_exp x) + 53)) \<le> rnd x"
proof -
  let ?u = "2 powr of_int (ulp_exp x)"
  from assms ulp_exp_upper [of x] have "- (?u * 2 powr 53) < x" by (simp add: powr_add)
  then have "of_int (- (2 ^ 53)) \<le> x / ?u" by (simp add: pos_le_divide_eq mult.commute)
  then have "- (2 ^ 53) \<le> round_even (x / ?u)" by (rule round_even_ge_int)
  then have "real_of_int (- (2 ^ 53)) \<le> real_of_int (round_even (x / ?u))" by (simp only: of_int_le_iff)
  then have "- (2 ^ 53 :: real) \<le> of_int (round_even (x / ?u))" by simp
  then have "(- (2 ^ 53)) * ?u \<le> real_of_int (round_even (x / ?u)) * ?u"
    by (intro mult_right_mono) simp_all
  with assms show ?thesis by (simp add: rnd_def powr_add mult.commute)
qed

lemma rnd_neg_upper:
  assumes "x < 0" "- 1074 < ulp_exp x" shows "rnd x \<le> - (2 powr (of_int (ulp_exp x) + 52))"
proof -
  let ?u = "2 powr of_int (ulp_exp x)"
  from assms ulp_exp_lower [of x] have "x \<le> - (?u * 2 powr 52)" by (simp add: powr_add)
  then have "x / ?u \<le> of_int (- (2 ^ 52))" by (simp add: pos_divide_le_eq mult.commute)
  then have "round_even (x / ?u) \<le> - (2 ^ 52)" by (rule round_even_le_int)
  then have "real_of_int (round_even (x / ?u)) \<le> real_of_int (- (2 ^ 52))" by (simp only: of_int_le_iff)
  then have "of_int (round_even (x / ?u)) \<le> - (2 ^ 52 :: real)" by simp
  then have "real_of_int (round_even (x / ?u)) * ?u \<le> (- (2 ^ 52)) * ?u"
    by (intro mult_right_mono) simp_all
  with assms show ?thesis by (simp add: rnd_def powr_add mult.commute)
qed

lemma rnd_same_ulp:
  assumes "x \<le> y" "ulp_exp x = ulp_exp y" "x \<noteq> 0" "y \<noteq> 0" shows "rnd x \<le> rnd y"
proof -
  let ?u = "2 powr of_int (ulp_exp y)"
  from assms(1) have "x / ?u \<le> y / ?u" by (simp add: divide_right_mono)
  then have "round_even (x / ?u) \<le> round_even (y / ?u)" by (rule round_even_mono)
  then have "real_of_int (round_even (x / ?u)) * ?u \<le> real_of_int (round_even (y / ?u)) * ?u"
    by (simp add: mult_right_mono)
  with assms show ?thesis by (simp add: rnd_def)
qed

lemma rnd_mono:
  assumes "x \<le> y" shows "rnd x \<le> rnd y"
proof -
  consider "x \<le> 0" "0 \<le> y" | "0 < x" | "y < 0" by linarith
  then show ?thesis
  proof cases
    case 1
    with rnd_nonpos [of x] rnd_nonneg [of y] show ?thesis by linarith
  next
    case 2
    with assms have y: "0 < y" by simp
    from 2 y assms have "ulp_exp x \<le> ulp_exp y" by (intro ulp_exp_mono) simp_all
    then consider "ulp_exp x = ulp_exp y" | "ulp_exp x + 1 \<le> ulp_exp y" by linarith
    then show ?thesis
    proof cases
      case 1
      with assms 2 y show ?thesis by (intro rnd_same_ulp) simp_all
    next
      case 2
      with ulp_exp_ge [of x] have "- 1074 < ulp_exp y" by linarith
      with y have l: "2 powr (of_int (ulp_exp y) + 52) \<le> rnd y" by (rule rnd_pos_lower)
      from \<open>0 < x\<close> have u: "rnd x \<le> 2 powr (of_int (ulp_exp x) + 53)" by (rule rnd_pos_upper)
      from 2 have "(of_int (ulp_exp x) + 53 :: real) \<le> of_int (ulp_exp y) + 52" by linarith
      then have "(2::real) powr (of_int (ulp_exp x) + 53) \<le> 2 powr (of_int (ulp_exp y) + 52)"
        by simp
      with l u show ?thesis by linarith
    qed
  next
    case 3
    with assms have x: "x < 0" by simp
    from 3 x assms have "ulp_exp y \<le> ulp_exp x" by (intro ulp_exp_mono) simp_all
    then consider "ulp_exp x = ulp_exp y" | "ulp_exp y + 1 \<le> ulp_exp x" by linarith
    then show ?thesis
    proof cases
      case 1
      with assms 3 x show ?thesis by (intro rnd_same_ulp) simp_all
    next
      case 2
      with ulp_exp_ge [of y] have "- 1074 < ulp_exp x" by linarith
      with x have l: "rnd x \<le> - (2 powr (of_int (ulp_exp x) + 52))" by (rule rnd_neg_upper)
      from \<open>y < 0\<close> have u: "- (2 powr (of_int (ulp_exp y) + 53)) \<le> rnd y" by (rule rnd_neg_lower)
      from 2 have "(of_int (ulp_exp y) + 53 :: real) \<le> of_int (ulp_exp x) + 52" by linarith
      then have "(2::real) powr (of_int (ulp_exp y) + 53) \<le> 2 powr (of_int (ulp_exp x) + 52)"
        by simp
      with l u show ?thesis by linarith
    qed
  qed
qed

lemma round_even_minus: "round_even (- q) = - round_even q"
proof (cases "q \<in> \<int>")
  case True
  then obtain n where "q = of_int n" by (auto elim: Ints_cases)
  then have "- q = of_int (- n)" by simp
  then show ?thesis using \<open>q = of_int n\<close> by (simp only: round_even_of_int)
next
  case False
  from False have ne: "of_int \<lfloor>q\<rfloor> \<noteq> q" by (metis Ints_of_int)
  then have f: "\<lfloor>- q\<rfloor> = - \<lfloor>q\<rfloor> - 1" by (auto simp add: floor_minus ceiling_altdef)
  from ne have "of_int \<lfloor>q\<rfloor> \<noteq> q" .
  then have d: "0 < q - of_int \<lfloor>q\<rfloor>" "q - of_int \<lfloor>q\<rfloor> < 1" by linarith+
  show ?thesis unfolding round_even_def Let_def f using d by auto
qed

lemma ulp_exp_minus: "ulp_exp (- x) = ulp_exp x"
  by (simp add: ulp_exp_def)

lemma rnd_minus: "rnd (- x) = - rnd x"
  by (simp add: rnd_def ulp_exp_minus round_even_minus)

lemma rnd_exact:
  assumes m: "\<bar>m\<bar> < 2 ^ 53" and k: "- 1074 \<le> k"
  shows "rnd (of_int m * 2 powr of_int k) = of_int m * 2 powr of_int k"
proof (cases "m = 0")
  case True
  then show ?thesis by (simp add: rnd_def)
next
  case False
  let ?x = "real_of_int m * 2 powr of_int k"
  have x0: "?x \<noteq> 0" using False by simp
  from m have "real_of_int \<bar>m\<bar> < real_of_int (2 ^ 53)" by (simp only: of_int_less_iff)
  then have "\<bar>real_of_int m\<bar> < 2 powr 53" by simp
  then have "\<bar>?x\<bar> < 2 powr 53 * 2 powr of_int k" by (simp add: abs_mult)
  then have lt: "\<bar>?x\<bar> < 2 powr (of_int k + 53)" by (simp add: powr_add mult.commute)
  from x0 have "2 powr (log 2 \<bar>?x\<bar>) = \<bar>?x\<bar>" by simp
  with lt have "2 powr (log 2 \<bar>?x\<bar>) < 2 powr (of_int k + 53)" by simp
  then have "log 2 \<bar>?x\<bar> < of_int (k + 53)" by simp
  then have "\<lfloor>log 2 \<bar>?x\<bar>\<rfloor> < k + 53" by (simp only: floor_less_iff)
  with k have le: "ulp_exp ?x \<le> k" by (simp add: ulp_exp_def)
  define u where "u = ulp_exp ?x"
  define j where "j = nat (k - u)"
  from le have kj: "k = u + int j" by (simp add: j_def u_def)
  have p: "2 powr real_of_int k = 2 powr real_of_int u * 2 ^ j"
    by (subst kj) (simp add: powr_add powr_realpow)
  have xe: "real_of_int (m * 2 ^ j) * 2 powr real_of_int u = ?x" unfolding p by simp
  have q: "?x / 2 powr real_of_int u = real_of_int (m * 2 ^ j)" unfolding p by simp
  have "rnd ?x = real_of_int (round_even (?x / 2 powr real_of_int u)) * 2 powr real_of_int u"
    using x0 unfolding u_def by (simp only: rnd_def if_False)
  also have "\<dots> = real_of_int (m * 2 ^ j) * 2 powr real_of_int u"
    by (simp only: q round_even_of_int)
  also have "\<dots> = ?x" by (rule xe)
  finally show ?thesis .
qed

lemma rnd_nat_pow2:
  assumes n: "n \<le> 2 ^ 53" and a: "- 1074 \<le> a"
  shows "rnd (real n * 2 powr of_int a) = real n * 2 powr of_int a"
proof (cases "n = 2 ^ 53")
  case True
  have "rnd (of_int (2 ^ 52) * 2 powr of_int (a + 1)) = of_int (2 ^ 52) * 2 powr of_int (a + 1)"
    using a by (intro rnd_exact) simp_all
  moreover have "real_of_int (2 ^ 52) * 2 powr of_int (a + 1) = real n * 2 powr of_int a"
    using True by (simp add: powr_add)
  ultimately show ?thesis by simp
next
  case False
  with n have "n < 2 ^ 53" by simp
  then have "int n < 2 ^ 53" by (metis of_nat_less_iff of_nat_numeral of_nat_power)
  then have "rnd (of_int (int n) * 2 powr of_int a) = of_int (int n) * 2 powr of_int a"
    using a by (intro rnd_exact) simp_all
  then show ?thesis by simp
qed

lemma rnd_nat: "n \<le> 2 ^ 53 \<Longrightarrow> rnd (real n) = real n"
  using rnd_nat_pow2 [of n 0] by simp

lemma rnd_int_small: "\<bar>i\<bar> < 2 ^ 53 \<Longrightarrow> rnd (of_int i) = of_int i"
  using rnd_exact [of i 0] by simp

lemma rnd_eval:
  assumes lo: "2 powr of_int e \<le> \<bar>x\<bar>" and hi: "\<bar>x\<bar> < 2 powr (of_int e + 1)" and e: "- 1022 \<le> e"
  shows "rnd x = of_int (round_even (x / 2 powr of_int (e - 52))) * 2 powr of_int (e - 52)"
proof -
  from lo have x0: "x \<noteq> 0" by (auto simp: abs_if split: if_splits)
  have "0 < \<bar>x\<bar>" using x0 by simp
  then have "\<lfloor>log 2 \<bar>x\<bar>\<rfloor> = e" using lo hi
    by (subst floor_log_eq_powr_iff) simp_all
  with e have "ulp_exp x = e - 52" by (simp add: ulp_exp_def)
  with x0 show ?thesis by (simp add: rnd_def)
qed

lemma rnd_tenth: "rnd (1 / 10) = 7205759403792794 / 72057594037927936"
proof -
  have "rnd (1 / 10) = of_int (round_even ((1 / 10) / 2 powr of_int (- 4 - 52))) * 2 powr of_int (- 4 - 52)"
    by (rule rnd_eval) (simp_all add: powr_minus_divide)
  also have "\<dots> = 7205759403792794 / 72057594037927936"
    by (simp add: powr_minus_divide round_even_def Let_def)
  finally show ?thesis .
qed

lemma f64_of_real_Finite:
  assumes "\<bar>x\<bar> \<le> B" "rnd B = B" "B < 2 ^ 1024"
  shows "f64_of_real x = Finite (rnd x) \<and> \<bar>rnd x\<bar> \<le> B"
proof -
  from assms(1) have "x \<le> B" "- B \<le> x" by linarith+
  then have "rnd x \<le> rnd B" "rnd (- B) \<le> rnd x" by (simp_all add: rnd_mono)
  with assms(2) have b: "rnd x \<le> B" "- B \<le> rnd x" by (simp_all add: rnd_minus)
  with assms(3) show ?thesis by (simp add: f64_of_real_def Let_def)
qed

lemma f64_of_real_exact:
  assumes "rnd x = x" "\<bar>x\<bar> < 2 ^ 1024"
  shows "f64_of_real x = Finite x"
  using assms by (simp add: f64_of_real_def Let_def) linarith

lemma f64_of_real_not_NaN: "f64_of_real x \<noteq> NaN"
  by (simp add: f64_of_real_def Let_def)

lemma float64_of_nat_small: "n \<le> 2 ^ 53 \<Longrightarrow> float64_of_nat n = Finite (real n)"
proof -
  assume n: "n \<le> 2 ^ 53"
  then have "real n \<le> real (2 ^ 53)" by (simp only: of_nat_le_iff)
  then have "\<bar>real n\<bar> < 2 ^ 1024" by simp
  with n show ?thesis unfolding float64_of_nat_def by (intro f64_of_real_exact rnd_nat)
qed

lemma phred_exponent:
  "f64_div (f64_neg (f64_sub (float64_of_nat (of_char c)) (Finite 33))) (Finite 10)
     = Finite (rnd ((33 - real (of_char c :: nat)) / 10))
   \<and> - 32 \<le> rnd ((33 - real (of_char c :: nat)) / 10)
   \<and> rnd ((33 - real (of_char c :: nat)) / 10) \<le> 4"
proof -
  define n :: nat where "n = of_char c"
  have n: "n < 256" unfolding n_def by (rule nat_of_char_less_256)
  then have n53: "n \<le> 2 ^ 53" by simp
  have a: "float64_of_nat n = Finite (real n)" using n53 by (rule float64_of_nat_small)
  have "rnd (of_int (int n - 33)) = of_int (int n - 33)" using n by (intro rnd_int_small) simp
  then have r: "rnd (real n - 33) = real n - 33" by simp
  have "\<bar>real n - 33\<bar> < 2 ^ 1024" using n by simp
  with r have b: "f64_of_real (real n - 33) = Finite (real n - 33)" by (rule f64_of_real_exact)
  have r32: "rnd 32 = 32" using rnd_nat [of 32] by simp
  have "\<bar>(33 - real n) / 10\<bar> \<le> 32" using n by simp
  then have d: "f64_of_real ((33 - real n) / 10) = Finite (rnd ((33 - real n) / 10))
      \<and> \<bar>rnd ((33 - real n) / 10)\<bar> \<le> 32"
    using r32 by (rule f64_of_real_Finite) simp
  have "(33 - real n) / 10 \<le> 4" by simp
  then have "rnd ((33 - real n) / 10) \<le> rnd 4" by (rule rnd_mono)
  also have "rnd 4 = 4" using rnd_nat [of 4] by simp
  finally have e: "rnd ((33 - real n) / 10) \<le> 4" .
  have "f64_div (f64_neg (f64_sub (float64_of_nat n) (Finite 33))) (Finite 10)
     = Finite (rnd ((33 - real n) / 10))"
    using d by (simp add: a f64_sub_def b)
  with d e show ?thesis unfolding n_def by (simp add: abs_le_iff)
qed

lemma rnd_pow2: "- 1074 \<le> a \<Longrightarrow> rnd (2 powr of_int a) = 2 powr of_int a"
  using rnd_nat_pow2 [of 1 a] by simp

lemma phred33ToError_Finite:
  "\<exists>x. phred33ToError c = Finite x \<and> 0 \<le> x \<and> x \<le> 16384"
proof -
  define y where "y = rnd ((33 - real (of_char c :: nat)) / 10)"
  from phred_exponent [of c] have p: "phred33ToError c = f64_of_real (10 powr y)" and y: "y \<le> 4"
    by (simp_all add: phred33ToError_def y_def)
  from y have "10 powr y \<le> 10 powr 4" by (intro powr_mono) simp_all
  also have "(10::real) powr 4 = 10000" by simp
  finally have "\<bar>10 powr y\<bar> \<le> 16384" by simp
  moreover have "rnd 16384 = 16384" using rnd_nat [of 16384] by simp
  ultimately have "f64_of_real (10 powr y) = Finite (rnd (10 powr y)) \<and> \<bar>rnd (10 powr y)\<bar> \<le> 16384"
    by (rule f64_of_real_Finite) simp
  moreover have "0 \<le> rnd (10 powr y)" by (rule rnd_nonneg) simp
  ultimately show ?thesis using p by auto
qed

lemma phred33ToError_small:
  assumes "63 \<le> (of_char c :: nat)"
  shows "\<exists>x. phred33ToError c = Finite x \<and> 0 \<le> x \<and> x \<le> 1 / 512"
proof -
  define y where "y = rnd ((33 - real (of_char c :: nat)) / 10)"
  from phred_exponent [of c] have p: "phred33ToError c = f64_of_real (10 powr y)"
    by (simp_all add: phred33ToError_def y_def)
  from assms have "(33 - real (of_char c :: nat)) / 10 \<le> - 3" by simp
  then have "y \<le> rnd (- 3)" unfolding y_def by (rule rnd_mono)
  also have "rnd (- 3) = - 3" using rnd_int_small [of "- 3"] by simp
  finally have "10 powr y \<le> 10 powr (- 3)" by (intro powr_mono) simp_all
  also have "(10::real) powr (- 3) = 1 / 1000" by (simp add: powr_minus_divide)
  finally have "\<bar>10 powr y\<bar> \<le> 1 / 512" by simp
  moreover have "rnd (1 / 512) = 1 / 512" using rnd_pow2 [of "- 9"] by (simp add: powr_minus_divide)
  ultimately have "f64_of_real (10 powr y) = Finite (rnd (10 powr y)) \<and> \<bar>rnd (10 powr y)\<bar> \<le> 1 / 512"
    by (rule f64_of_real_Finite) simp
  moreover have "0 \<le> rnd (10 powr y)" by (rule rnd_nonneg) simp
  ultimately show ?thesis using p by auto
qed

lemma phred33ToError_33: "phred33ToError (CHR ''!'') = Finite 1"
proof -
  have "rnd 0 = 0" by (simp add: rnd_def)
  with phred_exponent [of "CHR ''!''"] have "phred33ToError (CHR ''!'') = f64_of_real (10 powr 0)"
    by (simp add: phred33ToError_def)
  also have "\<dots> = Finite 1" using rnd_nat [of 1] by (simp add: f64_of_real_def)
  finally show ?thesis .
qed

lemma phred33ToError_43:
  "phred33ToError (CHR ''+'') = Finite (7205759403792794 / 72057594037927936)"
proof -
  have "rnd (- 1) = - 1" using rnd_int_small [of "- 1"] by simp
  with phred_exponent [of "CHR ''+''"] have "phred33ToError (CHR ''+'') = f64_of_real (10 powr (- 1))"
    by (simp add: phred33ToError_def)
  also have "(10::real) powr (- 1) = 1 / 10" by (simp add: powr_minus_divide)
  also have "f64_of_real (1 / 10) = Finite (7205759403792794 / 72057594037927936)"
    by (simp add: f64_of_real_def rnd_tenth)
  finally show ?thesis .
qed

lemma foldl_total_bounds:
  fixes lo hi :: real
  assumes lo: "0 \<le> lo" "\<forall>j\<le>2 ^ 53. rnd (real j * lo) = real j * lo"
    and hi: "\<forall>j\<le>2 ^ 53. rnd (real j * hi) = real j * hi" "hi \<le> 2 ^ 900"
  shows "(\<forall>c\<in>set q. \<exists>x. phred33ToError c = Finite x \<and> lo \<le> x \<and> x \<le> hi) \<Longrightarrow>
     k + length q \<le> 2 ^ 53 \<Longrightarrow> real k * lo \<le> s \<Longrightarrow> s \<le> real k * hi \<Longrightarrow>
     \<exists>s'. foldl (\<lambda>total c. f64_add total (phred33ToError c)) (Finite s) q = Finite s'
        \<and> real (k + length q) * lo \<le> s' \<and> s' \<le> real (k + length q) * hi"
proof (induction q arbitrary: k s)
  case Nil
  then show ?case by simp
next
  case (Cons c q)
  from Cons.prems(1) obtain x where x: "phred33ToError c = Finite x" "lo \<le> x" "x \<le> hi" by auto
  let ?B = "real (Suc k) * hi"
  from Cons.prems(2) have k1: "Suc k \<le> 2 ^ 53" by simp
  have lo1: "real (Suc k) * lo \<le> s + x" using Cons.prems(3) x(2) by (simp add: algebra_simps)
  have hi1: "s + x \<le> ?B" using Cons.prems(4) x(3) by (simp add: algebra_simps)
  have "0 \<le> real (Suc k) * lo" using lo(1) by simp
  with lo1 have nn: "0 \<le> s + x" by linarith
  have B: "rnd ?B = ?B" using hi(1) k1 by blast
  have L: "rnd (real (Suc k) * lo) = real (Suc k) * lo" using lo(2) k1 by blast
  have "real (Suc k) \<le> real (2 ^ 53)" using k1 by (simp only: of_nat_le_iff)
  then have "real (Suc k) \<le> 2 ^ 53" by simp
  moreover have "0 \<le> hi" using lo(1) x by linarith
  ultimately have "?B \<le> 2 ^ 53 * 2 ^ 900" using hi(2) by (intro mult_mono) simp_all
  then have Bf: "?B < 2 ^ 1024" by simp
  from nn hi1 have "\<bar>s + x\<bar> \<le> ?B" by simp
  then have f: "f64_of_real (s + x) = Finite (rnd (s + x)) \<and> \<bar>rnd (s + x)\<bar> \<le> ?B"
    using B Bf by (rule f64_of_real_Finite)
  have "rnd (real (Suc k) * lo) \<le> rnd (s + x)" using lo1 by (rule rnd_mono)
  with L have lo2: "real (Suc k) * lo \<le> rnd (s + x)" by simp
  from f have hi2: "rnd (s + x) \<le> real (Suc k) * hi" by linarith
  from Cons.prems(1) have all: "\<forall>c\<in>set q. \<exists>x. phred33ToError c = Finite x \<and> lo \<le> x \<and> x \<le> hi" by simp
  from Cons.prems(2) have len: "Suc k + length q \<le> 2 ^ 53" by simp
  from Cons.IH [OF all len lo2 hi2] f x(1) show ?case by simp
qed

lemma meanError_bounds:
  fixes lo hi :: real
  assumes lo: "0 \<le> lo" "\<forall>j\<le>2 ^ 53. rnd (real j * lo) = real j * lo"
    and hi: "\<forall>j\<le>2 ^ 53. rnd (real j * hi) = real j * hi" "hi \<le> 2 ^ 900"
    and all: "\<forall>c\<in>set q. \<exists>x. phred33ToError c = Finite x \<and> lo \<le> x \<and> x \<le> hi"
    and q: "q \<noteq> []" "length q \<le> 2 ^ 53"
  shows "\<exists>m. meanError q = Finite m \<and> lo \<le> m \<and> m \<le> hi"
proof -
  let ?n = "real (length q)"
  from q(1) have n: "0 < ?n" by simp
  from foldl_total_bounds [OF lo hi all, of 0 0] q(2)
  obtain S where S: "foldl (\<lambda>total c. f64_add total (phred33ToError c)) (Finite 0) q = Finite S"
      "?n * lo \<le> S" "S \<le> ?n * hi" by auto
  have d: "float64_of_nat (length q) = Finite ?n" using q(2) by (rule float64_of_nat_small)
  from S(2) n have l: "lo \<le> S / ?n" by (simp add: pos_le_divide_eq mult.commute)
  from S(3) n have h: "S / ?n \<le> hi" by (simp add: pos_divide_le_eq mult.commute)
  have rh: "rnd hi = hi" using hi(1) [rule_format, of 1] by simp
  have rl: "rnd lo = lo" using lo(2) [rule_format, of 1] by simp
  from l h lo(1) have "\<bar>S / ?n\<bar> \<le> hi" by simp
  moreover have "hi < 2 ^ 1024" using hi(2) by (rule le_less_trans) simp
  ultimately have f: "f64_of_real (S / ?n) = Finite (rnd (S / ?n)) \<and> \<bar>rnd (S / ?n)\<bar> \<le> hi"
    using rh by (intro f64_of_real_Finite)
  have "rnd lo \<le> rnd (S / ?n)" using l by (rule rnd_mono)
  with rl have "lo \<le> rnd (S / ?n)" by simp
  moreover from f have "rnd (S / ?n) \<le> hi" by linarith
  ultimately show ?thesis using f n by (simp add: meanError_def S(1) d)
qed

lemma meanError_pow2_bounds:
  assumes a: "- 1074 \<le> a" "a \<le> b" "b \<le> 900"
    and all: "\<forall>c\<in>set q. \<exists>x. phred33ToError c = Finite x \<and> 2 powr of_int a \<le> x \<and> x \<le> 2 powr of_int b"
    and q: "q \<noteq> []" "length q \<le> 2 ^ 53"
  shows "\<exists>m. meanError q = Finite m \<and> 2 powr of_int a \<le> m \<and> m \<le> 2 powr of_int b"
proof (rule meanError_bounds [OF _ _ _ _ all q])
  show "(0::real) \<le> 2 powr of_int a" by simp
  show "\<forall>j\<le>2 ^ 53. rnd (real j * 2 powr of_int a) = real j * 2 powr of_int a"
    using a by (simp add: rnd_nat_pow2)
  show "\<forall>j\<le>2 ^ 53. rnd (real j * 2 powr of_int b) = real j * 2 powr of_int b"
    using a by (simp add: rnd_nat_pow2)
  have "(2::real) powr of_int b \<le> 2 powr (real 900)" using a(3) by (intro powr_mono) simp_all
  also have "(2::real) powr (real 900) = 2 ^ 900" by (rule powr_realpow) simp
  finally show "(2::real) powr of_int b \<le> 2 ^ 900" .
qed

lemma meanError_small:
  assumes all: "\<forall>c\<in>set q. 63 \<le> (of_char c :: nat)" and q: "q \<noteq> []" "length q \<le> 2 ^ 53"
  shows "\<exists>m. meanError q = Finite m \<and> 0 \<le> m \<and> m \<le> 1 / 512"
proof (rule meanError_bounds [OF _ _ _ _ _ q])
  show "(0::real) \<le> 0" by simp
  show "\<forall>j\<le>2 ^ 53. rnd (real j * 0) = real j * 0" by (simp add: rnd_def)
  show "\<forall>j\<le>2 ^ 53. rnd (real j * (1 / 512)) = real j * (1 / 512)"
    using rnd_nat_pow2 [of _ "- 9"] by (simp add: powr_minus_divide)
  show "(1 / 512 :: real) \<le> 2 ^ 900" by simp
  show "\<forall>c\<in>set q. \<exists>x. phred33ToError c = Finite x \<and> 0 \<le> x \<and> x \<le> 1 / 512"
    using all phred33ToError_small by blast
qed

lemma meanError_ones:
  assumes "0 < n" "n \<le> 2 ^ 53"
  shows "meanError (replicate n (CHR ''!'')) = Finite 1"
proof -
  have "\<exists>m. meanError (replicate n (CHR ''!'')) = Finite m \<and> 1 \<le> m \<and> m \<le> 1"
  proof (rule meanError_bounds)
    show "(0::real) \<le> 1" by simp
    show "\<forall>j\<le>2 ^ 53. rnd (real j * 1) = real j * 1" by (simp add: rnd_nat)
    then show "\<forall>j\<le>2 ^ 53. rnd (real j * 1) = real j * 1" .
    show "(1::real) \<le> 2 ^ 900" by simp
    show "\<forall>c\<in>set (replicate n (CHR ''!'')). \<exists>x. phred33ToError c = Finite x \<and> 1 \<le> x \<and> x \<le> 1"
      by (simp add: phred33ToError_33)
    show "replicate n (CHR ''!'') \<noteq> []" using assms by simp
    show "length (replicate n (CHR ''!'')) \<le> 2 ^ 53" using assms by simp
  qed
  then show ?thesis by auto
qed

lemma meanError_Nil: "meanError [] = NaN"
  by (simp add: meanError_def float64_of_nat_def f64_of_real_def rnd_def)

lemma f64_of_real_nonneg:
  "0 \<le> x \<Longrightarrow> f64_of_real x = PosInf \<or> (\<exists>y. f64_of_real x = Finite y \<and> 0 \<le> y)"
  using rnd_nonneg [of x] by (simp add: f64_of_real_def Let_def)

lemma f64_add_nonneg:
  assumes "a = PosInf \<or> (\<exists>x. a = Finite x \<and> 0 \<le> x)" "b = PosInf \<or> (\<exists>y. b = Finite y \<and> 0 \<le> y)"
  shows "f64_add a b = PosInf \<or> (\<exists>z. f64_add a b = Finite z \<and> 0 \<le> z)"
proof (cases a)
  case (Finite x)
  show ?thesis
  proof (cases b)
    case (Finite y)
    with \<open>a = Finite x\<close> assms show ?thesis by (simp add: f64_of_real_nonneg)
  qed (use assms \<open>a = Finite x\<close> in simp_all)
next
  case PosInf
  with assms show ?thesis by (cases b) simp_all
qed (use assms in simp_all)

lemma phred33ToError_nonneg:
  "phred33ToError c = PosInf \<or> (\<exists>x. phred33ToError c = Finite x \<and> 0 \<le> x)"
  using phred33ToError_Finite [of c] by auto

lemma foldl_total_nonneg:
  "t = PosInf \<or> (\<exists>x. t = Finite x \<and> 0 \<le> x) \<Longrightarrow>
   foldl (\<lambda>total c. f64_add total (phred33ToError c)) t q = PosInf
   \<or> (\<exists>x. foldl (\<lambda>total c. f64_add total (phred33ToError c)) t q = Finite x \<and> 0 \<le> x)"
proof (induction q arbitrary: t)
  case Nil
  then show ?case by simp
next
  case (Cons c q)
  have "f64_add t (phred33ToError c) = PosInf
      \<or> (\<exists>z. f64_add t (phred33ToError c) = Finite z \<and> 0 \<le> z)"
    using Cons.prems phred33ToError_nonneg by (rule f64_add_nonneg)
  from Cons.IH [OF this] show ?case by simp
qed

lemma meanError_nonempty_not_NaN:
  assumes "q \<noteq> []" "length q < 2 ^ 63"
  shows "meanError q \<noteq> NaN"
proof -
  let ?n = "real (length q)"
  have "real (length q) < real (2 ^ 63)" using assms(2) by (simp only: of_nat_less_iff)
  then have "\<bar>?n\<bar> \<le> 2 ^ 63" by simp
  moreover have "rnd (2 ^ 63) = (2 ^ 63 :: real)" using rnd_pow2 [of 63] by (simp add: powr_realpow [symmetric])
  ultimately have f: "f64_of_real ?n = Finite (rnd ?n) \<and> \<bar>rnd ?n\<bar> \<le> 2 ^ 63"
    by (rule f64_of_real_Finite) simp
  from assms(1) have "1 \<le> ?n" by (cases q) simp_all
  then have "rnd 1 \<le> rnd ?n" by (rule rnd_mono)
  moreover have "rnd 1 = 1" using rnd_nat [of 1] by simp
  ultimately have p: "0 < rnd ?n" by simp
  have "foldl (\<lambda>total c. f64_add total (phred33ToError c)) (Finite 0) q = PosInf
     \<or> (\<exists>x. foldl (\<lambda>total c. f64_add total (phred33ToError c)) (Finite 0) q = Finite x \<and> 0 \<le> x)"
    by (rule foldl_total_nonneg) simp
  then show ?thesis using f p
    by (auto simp: meanError_def float64_of_nat_def f64_of_real_not_NaN)
qed

lemma rnd_2p53_plus1: "rnd (2 ^ 53 + 1) = 2 ^ 53"
proof -
  have "rnd (2 ^ 53 + 1) = of_int (round_even ((2 ^ 53 + 1) / 2 powr of_int (53 - 52))) * 2 powr of_int (53 - 52)"
    by (rule rnd_eval) simp_all
  also have "\<dots> = 2 ^ 53"
    by (simp add: round_even_def Let_def)
  finally show ?thesis .
qed

lemma foldl_ones_saturate:
  "k \<le> 2 ^ 53 \<Longrightarrow>
   foldl (\<lambda>total c. f64_add total (phred33ToError c)) (Finite (real k)) (replicate n (CHR ''!''))
     = Finite (real (min (k + n) (2 ^ 53)))"
proof (induction n arbitrary: k)
  case 0
  then show ?case by simp
next
  case (Suc n)
  show ?case
  proof (cases "k = 2 ^ 53")
    case True
    have "rnd 9007199254740993 = 9007199254740992" using rnd_2p53_plus1 by simp
    then have "f64_of_real (real k + 1) = Finite (real k)"
      using True by (simp add: f64_of_real_def Let_def)
    with Suc.IH [of k] True show ?thesis by (simp add: phred33ToError_33)
  next
    case False
    with Suc.prems have k: "Suc k \<le> 2 ^ 53" by simp
    then have "float64_of_nat (Suc k) = Finite (real (Suc k))" by (rule float64_of_nat_small)
    then have "f64_of_real (real k + 1) = Finite (real (Suc k))"
      by (simp add: float64_of_nat_def add.commute)
    with Suc.IH [OF k] show ?thesis by (simp add: phred33ToError_33)
  qed
qed

lemma meanError_saturated:
  "\<exists>m. meanError (replicate (2 ^ 53 + 2) (CHR ''!'')) = Finite m \<and> m < 1"
proof -
  let ?x = "(2 ^ 53 :: real) / (2 ^ 53 + 2)"
  let ?z = "real_of_int (2 ^ 53 - 1) * 2 powr of_int (- 53)"
  have t: "foldl (\<lambda>total c. f64_add total (phred33ToError c)) (Finite 0) (replicate (2 ^ 53 + 2) (CHR ''!''))
      = Finite (2 ^ 53)"
    using foldl_ones_saturate [of 0 "2 ^ 53 + 2"] by simp
  have "rnd (real_of_int (2 ^ 52 + 1) * 2 powr of_int 1) = real_of_int (2 ^ 52 + 1) * 2 powr of_int 1"
    by (rule rnd_exact) simp_all
  then have "rnd (2 ^ 53 + 2) = (2 ^ 53 + 2 :: real)" by simp
  then have d: "float64_of_nat (2 ^ 53 + 2) = Finite (2 ^ 53 + 2)"
    by (simp add: float64_of_nat_def f64_of_real_def)
  have z: "rnd ?z = ?z" by (rule rnd_exact) simp_all
  have zv: "?z = 9007199254740991 / 9007199254740992" by (simp add: powr_minus_divide)
  have "?x \<le> ?z" unfolding zv by simp
  then have "rnd ?x \<le> rnd ?z" by (rule rnd_mono)
  with z zv have le: "rnd ?x \<le> 9007199254740991 / 9007199254740992" by simp
  have "0 \<le> rnd ?x" by (rule rnd_nonneg) simp
  with le have "f64_of_real ?x = Finite (rnd ?x)" by (simp add: f64_of_real_def Let_def)
  with le t d show ?thesis by (simp add: meanError_def)
qed

lemma f64_of_real_eval:
  assumes "2 powr of_int e \<le> \<bar>x\<bar>" "\<bar>x\<bar> < 2 powr (of_int e + 1)" "- 1022 \<le> e"
    and "of_int (round_even (x / 2 powr of_int (e - 52))) * 2 powr of_int (e - 52) = z"
    and "\<bar>z\<bar> < 2 ^ 1024"
  shows "f64_of_real x = Finite z"
proof -
  from rnd_eval [OF assms(1-3)] assms(4) have "rnd x = z" by simp
  with assms(5) show ?thesis by (simp add: f64_of_real_def Let_def) linarith
qed

lemma ten_plus_1:
  "f64_add (Finite (0)) (Finite (3602879701896397 / 36028797018963968)) = Finite (3602879701896397 / 36028797018963968)"
  by simp (rule f64_of_real_eval [where e = "-4"], simp_all add: powr_minus_divide round_even_def Let_def)

lemma ten_plus_2:
  "f64_add (Finite (3602879701896397 / 36028797018963968)) (Finite (3602879701896397 / 36028797018963968)) = Finite (3602879701896397 / 18014398509481984)"
  by simp (rule f64_of_real_eval [where e = "-3"], simp_all add: powr_minus_divide round_even_def Let_def)

lemma ten_plus_3:
  "f64_add (Finite (3602879701896397 / 18014398509481984)) (Finite (3602879701896397 / 36028797018963968)) = Finite (1351079888211149 / 4503599627370496)"
  by simp (rule f64_of_real_eval [where e = "-2"], simp_all add: powr_minus_divide round_even_def Let_def)

lemma ten_plus_4:
  "f64_add (Finite (1351079888211149 / 4503599627370496)) (Finite (3602879701896397 / 36028797018963968)) = Finite (3602879701896397 / 9007199254740992)"
  by simp (rule f64_of_real_eval [where e = "-2"], simp_all add: powr_minus_divide round_even_def Let_def)

lemma ten_plus_5:
  "f64_add (Finite (3602879701896397 / 9007199254740992)) (Finite (3602879701896397 / 36028797018963968)) = Finite (1 / 2)"
  by simp (rule f64_of_real_eval [where e = "-1"], simp_all add: powr_minus_divide round_even_def Let_def)

lemma ten_plus_6:
  "f64_add (Finite (1 / 2)) (Finite (3602879701896397 / 36028797018963968)) = Finite (5404319552844595 / 9007199254740992)"
  by simp (rule f64_of_real_eval [where e = "-1"], simp_all add: powr_minus_divide round_even_def Let_def)

lemma ten_plus_7:
  "f64_add (Finite (5404319552844595 / 9007199254740992)) (Finite (3602879701896397 / 36028797018963968)) = Finite (3152519739159347 / 4503599627370496)"
  by simp (rule f64_of_real_eval [where e = "-1"], simp_all add: powr_minus_divide round_even_def Let_def)

lemma ten_plus_8:
  "f64_add (Finite (3152519739159347 / 4503599627370496)) (Finite (3602879701896397 / 36028797018963968)) = Finite (7205759403792793 / 9007199254740992)"
  by simp (rule f64_of_real_eval [where e = "-1"], simp_all add: powr_minus_divide round_even_def Let_def)

lemma ten_plus_9:
  "f64_add (Finite (7205759403792793 / 9007199254740992)) (Finite (3602879701896397 / 36028797018963968)) = Finite (2026619832316723 / 2251799813685248)"
  by simp (rule f64_of_real_eval [where e = "-1"], simp_all add: powr_minus_divide round_even_def Let_def)

lemma ten_plus_10:
  "f64_add (Finite (2026619832316723 / 2251799813685248)) (Finite (3602879701896397 / 36028797018963968)) = Finite (9007199254740991 / 9007199254740992)"
  by simp (rule f64_of_real_eval [where e = "-1"], simp_all add: powr_minus_divide round_even_def Let_def)

lemma ten_plus_mean:
  "f64_div (Finite (9007199254740991 / 9007199254740992)) (Finite 10) = Finite (7205759403792793 / 72057594037927936)"
  by simp (rule f64_of_real_eval [where e = "- 4"], simp_all add: powr_minus_divide round_even_def Let_def)

lemma meanError_ten_plus:
  "meanError ''++++++++++'' = Finite (7205759403792793 / 72057594037927936)"
proof -
  have p: "phred33ToError (CHR ''+'') = Finite (3602879701896397 / 36028797018963968)"
    by (simp add: phred33ToError_43)
  have "length ''++++++++++'' = 10" by simp
  then have n: "float64_of_nat (length ''++++++++++'') = Finite 10"
    using float64_of_nat_small [of 10] by (simp only:) simp
  have "foldl (\<lambda>total q. f64_add total (phred33ToError q)) (Finite 0) ''++++++++++''
      = Finite (9007199254740991 / 9007199254740992)"
    by (simp only: foldl_Cons foldl_Nil p ten_plus_1 ten_plus_2 ten_plus_3 ten_plus_4 ten_plus_5 ten_plus_6 ten_plus_7 ten_plus_8 ten_plus_9 ten_plus_10)
  then show ?thesis
    by (simp only: meanError_def n ten_plus_mean)
qed

lemma meanError_FFFF: "\<not> f64_ge (meanError ''FFFF'') (Finite (1 / 10))"
  using meanError_small [of "''FFFF''"] by auto

lemma meanError_FFFFF: "\<not> f64_ge (meanError ''FFFFF'') (Finite (1 / 10))"
  using meanError_small [of "''FFFFF''"] by auto

lemma meanError_IIII: "\<not> f64_ge (meanError ''IIII'') (Finite (1 / 10))"
  using meanError_small [of "''IIII''"] by auto

lemma meanError_bangs_one: "meanError ''!!!!'' = Finite 1"
proof -
  have "''!!!!'' = replicate 4 (CHR ''!'')" by (simp add: numeral_eq_Suc)
  moreover have "meanError (replicate 4 (CHR ''!'')) = Finite 1"
    by (rule meanError_ones) simp_all
  ultimately show ?thesis by (simp only:)
qed

section \<open>Lemmas about the trimming decision\<close>

lemma indexFrom_Some_bound:
  "indexFrom s sub = Some i \<Longrightarrow> i + length sub \<le> length s \<and> take (length sub) (drop i s) = sub"
proof (induction s arbitrary: i)
  case Nil
  then show ?case by (simp split: if_splits)
next
  case (Cons c cs)
  show ?case
  proof (cases "prefix sub (c # cs)")
    case True
    with Cons.prems have "i = 0" by simp
    with True prefix_length_le [OF True] show ?thesis by (auto simp: prefix_def)
  next
    case False
    with Cons.prems obtain j where j: "indexFrom cs sub = Some j" "i = Suc j" by auto
    with Cons.IH [of j] show ?thesis by simp
  qed
qed

lemma indexFrom_leftmost:
  "indexFrom s sub = Some i \<Longrightarrow> j < i \<Longrightarrow> \<not> prefix sub (drop j s)"
proof (induction s arbitrary: i j)
  case Nil
  then show ?case by (simp split: if_splits)
next
  case (Cons c cs)
  show ?case
  proof (cases "prefix sub (c # cs)")
    case True
    with Cons.prems show ?thesis by simp
  next
    case False
    with Cons.prems obtain k where k: "indexFrom cs sub = Some k" "i = Suc k" by auto
    show ?thesis
    proof (cases j)
      case 0
      with False show ?thesis by simp
    next
      case (Suc j')
      with k Cons.prems Cons.IH [of k j'] show ?thesis by simp
    qed
  qed
qed

lemma indexFrom_None_iff: "indexFrom s sub = None \<longleftrightarrow> \<not> sublist sub s"
proof (induction s)
  case Nil
  then show ?case by simp
next
  case (Cons c cs)
  then show ?case by (auto simp: sublist_Cons_right)
qed

lemma go_slice_SomeD:
  "go_slice s lo hi = Some t \<Longrightarrow>
     0 \<le> lo \<and> lo \<le> hi \<and> hi \<le> int (length s) \<and>
     t = take (nat (hi - lo)) (drop (nat lo) s) \<and> int (length t) = hi - lo"
  by (auto simp: go_slice_def split: if_splits)

lemma go_slice_None_iff:
  "go_slice s lo hi = None \<longleftrightarrow> \<not> (0 \<le> lo \<and> lo \<le> hi \<and> hi \<le> int (length s))"
  by (simp add: go_slice_def)

lemma strings_Index_found: "indexFrom s p = Some i \<Longrightarrow> strings_Index s p = int i"
  by (simp add: strings_Index_def)

lemma strings_Index_absent: "strings_Index s p = - 1 \<longleftrightarrow> indexFrom s p = None"
  by (simp add: strings_Index_def split: option.splits)

lemma trimRead_found:
  assumes "go_slice adapter 0 (sint min5Match) = Some pre"
    and "indexFrom (Sequence read) pre = Some i"
  shows "trimRead read adapter minLen trim5 trim3 min5Match maxError =
     (if sint ((word_of_nat i :: go_int) - trim3 - trim5) < sint minLen then Err ''too short''
      else (case go_slice (Sequence read) (sint trim5) (sint ((word_of_nat i :: go_int) - trim3)) of
              None \<Rightarrow> Panic
            | Some trimmedSequence \<Rightarrow>
               (case go_slice (Quality read) (sint trim5) (sint ((word_of_nat i :: go_int) - trim3)) of
                  None \<Rightarrow> Panic
                | Some trimmedQuality \<Rightarrow>
                    if f64_ge (meanError trimmedQuality) maxError then Err ''low quality''
                    else Ok \<lparr>Header = Header read, Sequence = trimmedSequence, Quality = trimmedQuality\<rparr>)))"
  using assms by (simp add: trimRead_def Let_def strings_Index_found)

lemma trimRead_absent:
  assumes "go_slice adapter 0 (sint min5Match) = Some pre"
    and "indexFrom (Sequence read) pre = None"
  shows "trimRead read adapter minLen trim5 trim3 min5Match maxError = Err ''adapter missing''"
  using assms by (simp add: trimRead_def Let_def strings_Index_def)

lemma trimRead_panic_prefix:
  assumes "go_slice adapter 0 (sint min5Match) = None"
  shows "trimRead read adapter minLen trim5 trim3 min5Match maxError = Panic"
  using assms by (simp add: trimRead_def)

lemma sint_window_length:
  "sint ((word_of_nat i :: go_int) - t3 - t5) = signed_take_bit 63 (int i - sint t3 - sint t5)"
proof -
  have "(word_of_nat i :: go_int) - t3 - t5 = word_of_int (int i - sint t3 - sint t5)"
    by simp
  then show ?thesis by (simp only: sint_sbintrunc') simp
qed

lemma sint_window_end:
  "sint ((word_of_nat i :: go_int) - t3) = signed_take_bit 63 (int i - sint t3)"
proof -
  have "(word_of_nat i :: go_int) - t3 = word_of_int (int i - sint t3)"
    by simp
  then show ?thesis by (simp only: sint_sbintrunc') simp
qed

lemma sint_diff_valid:
  fixes a b :: go_int
  assumes "0 \<le> sint b" "sint b \<le> sint a"
  shows "sint (a - b) = sint a - sint b"
proof -
  have "sint a < 2 ^ 63" using sint_lt [of a] by simp
  with assms have "- (2 ^ 63) \<le> sint a - sint b" "sint a - sint b < 2 ^ 63" by simp_all
  then show ?thesis by (simp add: sint_word_diff signed_take_bit_int_eq_self)
qed

lemma indexFrom_leftmost_occurrence:
  assumes "indexFrom s sub = Some i"
  shows "leftmost_occurrence s sub i"
proof -
  from indexFrom_Some_bound [OF assms]
  have b: "i + length sub \<le> length s" and t: "take (length sub) (drop i s) = sub" by simp_all
  have "prefix sub (drop i s)"
    using t by (metis take_is_prefix)
  with b indexFrom_leftmost [OF assms] show ?thesis
    by (simp add: leftmost_occurrence_def)
qed

lemma leftmost_occurrence_unique:
  "leftmost_occurrence s sub i \<Longrightarrow> leftmost_occurrence s sub j \<Longrightarrow> i = j"
  unfolding leftmost_occurrence_def by (metis lessThan_iff linorder_neqE_nat)

lemma trimRead_cases:
  obtains (PrefixPanic) "go_slice adapter 0 (sint min5Match) = None"
        "trimRead read adapter minLen trim5 trim3 min5Match maxError = Panic"
   | (Absent) pre where "go_slice adapter 0 (sint min5Match) = Some pre"
        "indexFrom (Sequence read) pre = None"
        "trimRead read adapter minLen trim5 trim3 min5Match maxError = Err ''adapter missing''"
   | (Short) pre i where "go_slice adapter 0 (sint min5Match) = Some pre"
        "indexFrom (Sequence read) pre = Some i"
        "sint ((word_of_nat i :: go_int) - trim3 - trim5) < sint minLen"
        "trimRead read adapter minLen trim5 trim3 min5Match maxError = Err ''too short''"
   | (SlicePanic) pre i where "go_slice adapter 0 (sint min5Match) = Some pre"
        "indexFrom (Sequence read) pre = Some i"
        "\<not> sint ((word_of_nat i :: go_int) - trim3 - trim5) < sint minLen"
        "go_slice (Sequence read) (sint trim5) (sint ((word_of_nat i :: go_int) - trim3)) = None
         \<or> go_slice (Quality read) (sint trim5) (sint ((word_of_nat i :: go_int) - trim3)) = None"
        "trimRead read adapter minLen trim5 trim3 min5Match maxError = Panic"
   | (Low) pre i s q where "go_slice adapter 0 (sint min5Match) = Some pre"
        "indexFrom (Sequence read) pre = Some i"
        "\<not> sint ((word_of_nat i :: go_int) - trim3 - trim5) < sint minLen"
        "go_slice (Sequence read) (sint trim5) (sint ((word_of_nat i :: go_int) - trim3)) = Some s"
        "go_slice (Quality read) (sint trim5) (sint ((word_of_nat i :: go_int) - trim3)) = Some q"
        "f64_ge (meanError q) maxError"
        "trimRead read adapter minLen trim5 trim3 min5Match maxError = Err ''low quality''"
   | (Pass) pre i s q where "go_slice adapter 0 (sint min5Match) = Some pre"
        "indexFrom (Sequence read) pre = Some i"
        "\<not> sint ((word_of_nat i :: go_int) - trim3 - trim5) < sint minLen"
        "go_slice (Sequence read) (sint trim5) (sint ((word_of_nat i :: go_int) - trim3)) = Some s"
        "go_slice (Quality read) (sint trim5) (sint ((word_of_nat i :: go_int) - trim3)) = Some q"
        "\<not> f64_ge (meanError q) maxError"
        "trimRead read adapter minLen trim5 trim3 min5Match maxError =
           Ok \<lparr>Header = Header read, Sequence = s, Quality = q\<rparr>"
proof (cases "go_slice adapter 0 (sint min5Match)")
  case None
  show ?thesis by (rule PrefixPanic [OF None trimRead_panic_prefix [OF None]])
next
  case (Some pre)
  note pre = this
  show ?thesis
  proof (cases "indexFrom (Sequence read) pre")
    case None
    show ?thesis by (rule Absent [OF pre None trimRead_absent [OF pre None]])
  next
    case (Some i)
    note found = trimRead_found [OF pre Some, of minLen trim5 trim3 maxError]
    show ?thesis
    proof (cases "sint ((word_of_nat i :: go_int) - trim3 - trim5) < sint minLen")
      case True
      then show ?thesis using Short [OF pre Some] found by simp
    next
      case False
      note long = this
      show ?thesis
      proof (cases "go_slice (Sequence read) (sint trim5) (sint ((word_of_nat i :: go_int) - trim3))")
        case None
        then show ?thesis using SlicePanic [OF pre Some long] found long by simp
      next
        case (Some s)
        note s = this
        show ?thesis
        proof (cases "go_slice (Quality read) (sint trim5) (sint ((word_of_nat i :: go_int) - trim3))")
          case None
          then show ?thesis using SlicePanic [OF pre \<open>indexFrom (Sequence read) pre = Some i\<close> long] found long s by simp
        next
          case (Some q)
          show ?thesis
          proof (cases "f64_ge (meanError q) maxError")
            case True
            then show ?thesis
              using Low [OF pre \<open>indexFrom (Sequence read) pre = Some i\<close> long s Some] found long s Some by simp
          next
            case False
            then show ?thesis
              using Pass [OF pre \<open>indexFrom (Sequence read) pre = Some i\<close> long s Some] found long s Some by simp
          qed
        qed
      qed
    qed
  qed
qed

lemma stb_wrap_high:
  assumes "2 ^ 63 \<le> (k::int)" "k < 2 ^ 64"
  shows "signed_take_bit 63 k = k - 2 ^ 64"
proof -
  have "take_bit (Suc 63) k = take_bit (Suc 63) (k - 2 ^ 64)"
    by (simp add: take_bit_eq_mod)
  then have "signed_take_bit 63 k = signed_take_bit 63 (k - 2 ^ 64)"
    by (simp only: signed_take_bit_eq_iff_take_bit_eq)
  also have "\<dots> = k - 2 ^ 64"
    using assms by (intro signed_take_bit_int_eq_self) simp_all
  finally show ?thesis .
qed

lemma window_end_exact:
  assumes "i < 2 ^ 63" "0 \<le> sint ((word_of_nat i :: go_int) - t3)"
  shows "sint ((word_of_nat i :: go_int) - t3) = int i - sint t3"
proof -
  have r: "- (2 ^ 63) \<le> sint t3" "sint t3 < 2 ^ 63"
    using sint_ge [of t3] sint_lt [of t3] by simp_all
  show ?thesis
  proof (cases "int i - sint t3 < 2 ^ 63")
    case True
    with r assms show ?thesis
      by (simp add: sint_window_end signed_take_bit_int_eq_self)
  next
    case False
    with r assms have "signed_take_bit 63 (int i - sint t3) = int i - sint t3 - 2 ^ 64"
      by (intro stb_wrap_high) simp_all
    with assms r show ?thesis by (simp add: sint_window_end)
  qed
qed

lemma ex_success:
  "trimRead \<lparr>Header = ''@Header'', Sequence = ''ATCGATCC'', Quality = ''FFFFFFFF''\<rparr>
       ''ATCC'' 2 0 0 4 (Finite (1 / 10))
     = Ok \<lparr>Header = ''@Header'', Sequence = ''ATCG'', Quality = ''FFFF''\<rparr>"
  using meanError_FFFF
  by (simp add: trimRead_def go_slice_def strings_Index_def Let_def)

lemma ex_missing:
  "trimRead \<lparr>Header = h, Sequence = ''ATCGATCG'', Quality = q\<rparr>
       ''TTTT'' minLen trim5 trim3 3 maxError = AdapterMissing"
  by (simp add: trimRead_def go_slice_def strings_Index_def Let_def AdapterMissing_def)

lemma ex_low:
  "sint minLen \<le> 4 \<Longrightarrow> t \<le> 1 \<Longrightarrow>
   trimRead \<lparr>Header = h, Sequence = ''ATCGATCC'', Quality = ''!!!!!!!!''\<rparr>
       ''ATCC'' minLen 0 0 4 (Finite t) = LowQuality"
  using meanError_bangs_one
  by (simp add: trimRead_def go_slice_def strings_Index_def Let_def LowQuality_def)

lemma ex_empty_window:
  "trimRead \<lparr>Header = ''@Header'', Sequence = ''ATCGATCC'', Quality = ''FFFFFFFF''\<rparr>
       ''ATCC'' 0 4 0 4 (Finite (1 / 10))
     = Ok \<lparr>Header = ''@Header'', Sequence = [], Quality = []\<rparr>"
  by (simp add: trimRead_def go_slice_def strings_Index_def Let_def meanError_Nil)

lemma ex_neg_trim5:
  "trimRead \<lparr>Header = ''@Header'', Sequence = ''ATCGATCC'', Quality = ''FFFFFFFF''\<rparr>
       ''ATCC'' 2 (- 1) 0 4 (Finite (1 / 10)) = Panic"
  by (simp add: trimRead_def go_slice_def strings_Index_def Let_def)

lemma ex_overflow:
  "trimRead \<lparr>Header = ''@Header'', Sequence = ''A'', Quality = ''F''\<rparr>
       ''A'' 1 9223372036854775807 9223372036854775807 1 (Finite (1 / 10)) = Panic"
  by (simp add: trimRead_def go_slice_def strings_Index_def Let_def)

lemma ex_prefix_panic:
  "trimRead \<lparr>Header = ''@Header'', Sequence = ''ATCGATCC'', Quality = ''FFFFFFFF''\<rparr>
       ''ATCC'' 2 0 0 5 (Finite (1 / 10)) = Panic"
  by (simp add: trimRead_def go_slice_def strings_Index_def Let_def)

lemma leftmost_occurrence_indexFrom:
  assumes "leftmost_occurrence s sub i"
  shows "indexFrom s sub = Some i"
proof (cases "indexFrom s sub")
  case None
  from assms have p: "prefix sub (drop i s)" by (simp add: leftmost_occurrence_def)
  then obtain zs where "drop i s = sub @ zs" by (auto simp: prefix_def)
  then have "s = take i s @ sub @ zs" by (metis append_take_drop_id)
  then have "sublist sub s" unfolding sublist_def by blast
  with None show ?thesis by (simp add: indexFrom_None_iff)
next
  case (Some j)
  from indexFrom_leftmost_occurrence [OF Some] assms have "j = i"
    by (rule leftmost_occurrence_unique)
  with Some show ?thesis by simp
qed

lemma indexFrom_iff_leftmost: "indexFrom s sub = Some i \<longleftrightarrow> leftmost_occurrence s sub i"
  using leftmost_occurrence_indexFrom indexFrom_leftmost_occurrence by blast

lemma go_slice_prefix:
  "0 \<le> m \<Longrightarrow> m \<le> int (length a) \<Longrightarrow> go_slice a 0 m = Some (take (nat m) a)"
  by (simp add: go_slice_def)

lemma result_distinct:
  "AdapterMissing \<noteq> TooShort" "AdapterMissing \<noteq> LowQuality" "TooShort \<noteq> LowQuality"
  "AdapterMissing \<noteq> Panic" "TooShort \<noteq> Panic" "LowQuality \<noteq> Panic"
  "AdapterMissing \<noteq> Ok r" "TooShort \<noteq> Ok r" "LowQuality \<noteq> Ok r"
  by (simp_all add: AdapterMissing_def TooShort_def LowQuality_def)

lemma adapter_prefix_found_cases:
  assumes pre: "go_slice adapter 0 (sint min5Match) = Some pre"
    and idx: "indexFrom (Sequence read) pre = Some i"
  shows "(trimRead read adapter minLen trim5 trim3 min5Match maxError = TooShort
          \<longleftrightarrow> sint ((word_of_nat i :: go_int) - trim3 - trim5) < sint minLen)"
    and "trimRead read adapter minLen trim5 trim3 min5Match maxError \<noteq> AdapterMissing"
    and "trimRead read adapter minLen trim5 trim3 min5Match maxError = Ok out \<Longrightarrow>
          go_slice (Sequence read) (sint trim5) (sint ((word_of_nat i :: go_int) - trim3))
            = Some (Sequence out)"
    and "\<not> sint ((word_of_nat i :: go_int) - trim3 - trim5) < sint minLen \<Longrightarrow>
         (trimRead read adapter minLen trim5 trim3 min5Match maxError = LowQuality \<longleftrightarrow>
           (\<exists>s q. go_slice (Sequence read) (sint trim5) (sint ((word_of_nat i :: go_int) - trim3)) = Some s
               \<and> go_slice (Quality read) (sint trim5) (sint ((word_of_nat i :: go_int) - trim3)) = Some q
               \<and> f64_ge (meanError q) maxError))"
  unfolding trimRead_found [OF pre idx] TooShort_def AdapterMissing_def LowQuality_def
  by (auto split: option.splits if_splits)

lemma indexFrom_found_iff: "(\<exists>i. indexFrom s sub = Some i) \<longleftrightarrow> sublist sub s"
  using indexFrom_None_iff [of s sub] by (cases "indexFrom s sub") simp_all

lemma window_length_exact:
  assumes "- (2 ^ 63) \<le> int i - sint t3 - sint t5" "int i - sint t3 - sint t5 < 2 ^ 63"
  shows "sint ((word_of_nat i :: go_int) - t3 - t5) = int i - sint t3 - sint t5"
  using assms by (simp add: sint_window_length signed_take_bit_int_eq_self)

lemma short_lines_Cons [simp]:
  "short_lines (l # ls) \<longleftrightarrow> length l < MaxScanTokenSize \<and> short_lines ls"
  by (simp add: short_lines_def)

lemma short_lines_Nil [simp]: "short_lines []"
  by (simp add: short_lines_def)

lemma short_lines_drop: "short_lines ls \<Longrightarrow> short_lines (drop n ls)"
  unfolding short_lines_def list_all_iff by (meson in_set_dropD)

lemma short_lines_take: "short_lines ls \<Longrightarrow> short_lines (take n ls)"
  unfolding short_lines_def list_all_iff by (meson in_set_takeD)

lemma short_lines_take_drop:
  "short_lines (take n ls) \<Longrightarrow> short_lines (drop n ls) \<Longrightarrow> short_lines ls"
  using list_all_append [of "\<lambda>l. length l < MaxScanTokenSize" "take n ls" "drop n ls"]
  by (simp add: short_lines_def)

lemma Scan_Cons:
  "length l < MaxScanTokenSize \<Longrightarrow>
   Scan \<lparr>unread = l # ls, token = t, buffered = None, tooLong = False\<rparr> = (True, \<lparr>unread = ls, token = dropCR l, buffered = None, tooLong = False\<rparr>)"
  by (simp add: Scan_def)

lemma Scan_Nil: "Scan \<lparr>unread = [], token = t, buffered = None, tooLong = False\<rparr> = (False, \<lparr>unread = [], token = [], buffered = None, tooLong = False\<rparr>)"
  by (simp add: Scan_def)

lemma Scan_line:
  "short_lines (take 1 ls) \<Longrightarrow>
   snd (Scan \<lparr>unread = ls, token = t, buffered = None, tooLong = False\<rparr>) = \<lparr>unread = drop 1 ls, token = line ls 0, buffered = None, tooLong = False\<rparr>"
  by (cases ls) (simp_all add: Scan_def line_def)

lemma line_drop: "line (drop k ls) n = line ls (k + n)"
  by (auto simp: line_def)

lemma readRecord_rec:
  assumes "short_lines (take 3 rest)"
  shows "readRecord \<lparr>unread = rest, token = h, buffered = None, tooLong = False\<rparr> =
     (if wellformed (h, line rest 0, line rest 1, line rest 2)
      then Inr (to_read (h, line rest 0, line rest 1, line rest 2),
                \<lparr>unread = drop 3 rest, token = line rest 2, buffered = None, tooLong = False\<rparr>)
      else Inl (record_error (h, line rest 0, line rest 1, line rest 2)))"
proof -
  from assms have sh: "short_lines (take 1 rest)" "short_lines (take 1 (drop 1 rest))"
      "short_lines (take 1 (drop 2 rest))"
    by (cases rest; cases "tl rest"; cases "tl (tl rest)"; simp)+
  have s1: "snd (Scan \<lparr>unread = rest, token = h, buffered = None, tooLong = False\<rparr>) = \<lparr>unread = drop 1 rest, token = line rest 0, buffered = None, tooLong = False\<rparr>"
    using sh(1) by (rule Scan_line)
  have s2: "snd (Scan \<lparr>unread = drop 1 rest, token = line rest 0, buffered = None, tooLong = False\<rparr>)
              = \<lparr>unread = drop 2 rest, token = line rest 1, buffered = None, tooLong = False\<rparr>"
    using Scan_line [OF sh(2)] by (simp add: line_drop numeral_2_eq_2)
  have s3: "snd (Scan \<lparr>unread = drop 2 rest, token = line rest 1, buffered = None, tooLong = False\<rparr>)
              = \<lparr>unread = drop 3 rest, token = line rest 2, buffered = None, tooLong = False\<rparr>"
    using Scan_line [OF sh(3)] by (simp add: line_drop numeral_2_eq_2 numeral_3_eq_3)
  show ?thesis
    unfolding readRecord_def Let_def Text_def s1 s2 s3
    by (simp add: wellformed_def record_error_def to_read_def)
qed

text \<open>
  Once the scanner has recorded its error it keeps it; and a scanner that has not, and
  holds nothing back, either records the error at the next line or delivers that line.
\<close>

lemma Scan_tooLong: "tooLong sc \<Longrightarrow> tooLong (snd (Scan sc))"
  by (simp add: Scan_def split: option.splits)

lemma Scan_step:
  assumes "\<not> tooLong sc" "buffered sc = None"
  shows "tooLong (snd (Scan sc)) \<or>
     (\<not> tooLong (snd (Scan sc)) \<and> buffered (snd (Scan sc)) = None \<and>
      unread (snd (Scan sc)) = drop 1 (unread sc) \<and> short_lines (take 1 (unread sc)))"
  using assms by (cases "unread sc") (simp_all add: Scan_def)

lemma readRecord_scanner:
  "readRecord sc0 = Inr (r, sc3) \<Longrightarrow> sc3 = snd (Scan (snd (Scan (snd (Scan sc0)))))"
  by (simp add: readRecord_def Let_def split: if_splits)

lemma Scan_steps3:
  assumes "\<not> tooLong sc" "buffered sc = None"
  shows "tooLong (snd (Scan (snd (Scan (snd (Scan sc)))))) \<or>
     (\<not> tooLong (snd (Scan (snd (Scan (snd (Scan sc)))))) \<and>
      buffered (snd (Scan (snd (Scan (snd (Scan sc)))))) = None \<and>
      unread (snd (Scan (snd (Scan (snd (Scan sc)))))) = drop 3 (unread sc) \<and>
      short_lines (take 3 (unread sc)))"
proof -
  let ?s1 = "snd (Scan sc)"
  let ?s2 = "snd (Scan ?s1)"
  let ?s3 = "snd (Scan ?s2)"
  show ?thesis
  proof (cases "tooLong ?s1")
    case True
    then show ?thesis by (simp add: Scan_tooLong)
  next
    case n1: False
    with Scan_step [OF assms] have a1: "buffered ?s1 = None" "unread ?s1 = drop 1 (unread sc)"
      "short_lines (take 1 (unread sc))" by simp_all
    show ?thesis
    proof (cases "tooLong ?s2")
      case True
      then show ?thesis by (simp add: Scan_tooLong)
    next
      case n2: False
      with Scan_step [OF n1 a1(1)] have a2: "buffered ?s2 = None" "unread ?s2 = drop 1 (unread ?s1)"
        "short_lines (take 1 (unread ?s1))" by simp_all
      show ?thesis
      proof (cases "tooLong ?s3")
        case True
        then show ?thesis by simp
      next
        case n3: False
        with Scan_step [OF n2 a2(1)] have a3: "buffered ?s3 = None" "unread ?s3 = drop 1 (unread ?s2)"
          "short_lines (take 1 (unread ?s2))" by simp_all
        have u: "unread ?s3 = drop 3 (unread sc)"
          by (simp add: a3(2) a2(2) a1(2) numeral_3_eq_3)
        have "short_lines (take 3 (unread sc))"
          using a1(3) a2(3) a3(3) unfolding a2(2) a1(2)
          by (cases "unread sc"; cases "tl (unread sc)"; cases "tl (tl (unread sc))"; simp)
        with n3 a3(1) u show ?thesis by simp
      qed
    qed
  qed
qed

lemma scanLoop_tooLong:
  "tooLong sc \<Longrightarrow> scanLoop bsz sc batch dispatched tot = Inr (sc', batch', dispatched', tot')
     \<Longrightarrow> tooLong sc'"
proof (induction bsz sc batch dispatched tot rule: scanLoop.induct)
  case (1 bsz sc batch dispatched tot)
  obtain ok sc0 where s: "Scan sc = (ok, sc0)" by (cases "Scan sc")
  from "1.prems"(1) have t0: "tooLong sc0" using Scan_tooLong [of sc] s by simp
  show ?case
  proof (cases ok)
    case False
    with "1.prems"(2) s have "sc' = sc0" by (subst (asm) scanLoop.simps) simp
    with t0 show ?thesis by simp
  next
    case True
    from "1.prems"(2) s True obtain r sc3 where rr: "readRecord sc0 = Inr (r, sc3)"
      by (subst (asm) scanLoop.simps) (auto split: sum.splits)
    from readRecord_scanner [OF rr] t0 have t3: "tooLong sc3" by (simp add: Scan_tooLong)
    show ?thesis
    proof (cases "length (batch @ [r]) = bsz")
      case b: True
      with "1.prems"(2) s True rr have
        "scanLoop bsz sc3 [] (dispatched @ [batch @ [r]]) (tot + 1) = Inr (sc', batch', dispatched', tot')"
        by (subst (asm) scanLoop.simps) simp
      from "1.IH"(1) [OF s [symmetric] eqTrueI [OF True] rr refl b t3 this] show ?thesis .
    next
      case b: False
      with "1.prems"(2) s True rr have
        "scanLoop bsz sc3 (batch @ [r]) dispatched (tot + 1) = Inr (sc', batch', dispatched', tot')"
        by (subst (asm) scanLoop.simps) simp
      from "1.IH"(2) [OF s [symmetric] eqTrueI [OF True] rr refl b t3 this] show ?thesis .
    qed
  qed
qed

lemma scanLoop_long:
  "\<not> tooLong sc \<Longrightarrow> buffered sc = None \<Longrightarrow> \<not> short_lines (unread sc) \<Longrightarrow>
   scanLoop bsz sc batch dispatched tot = Inr (sc', batch', dispatched', tot')
     \<Longrightarrow> tooLong sc'"
proof (induction bsz sc batch dispatched tot rule: scanLoop.induct)
  case (1 bsz sc batch dispatched tot)
  obtain ok sc0 where s: "Scan sc = (ok, sc0)" by (cases "Scan sc")
  from "1.prems"(3) obtain l ls where u: "unread sc = l # ls" by (cases "unread sc") simp_all
  show ?case
  proof (cases "length l < MaxScanTokenSize")
    case False
    with s u "1.prems"(1,2) have "ok = False" "tooLong sc0" by (auto simp: Scan_def)
    with "1.prems"(4) s show ?thesis by (subst (asm) scanLoop.simps) simp
  next
    case short: True
    with s u "1.prems"(1,2) have ok: "ok" and n0: "\<not> tooLong sc0" "buffered sc0 = None"
      and u0: "unread sc0 = ls" by (auto simp: Scan_def)
    from short u "1.prems"(3) have long: "\<not> short_lines ls" by simp
    from "1.prems"(4) s ok obtain r sc3 where rr: "readRecord sc0 = Inr (r, sc3)"
      by (subst (asm) scanLoop.simps) (auto split: sum.splits)
    have rest: "scanLoop bsz sc3 (if length (batch @ [r]) = bsz then [] else batch @ [r])
        (if length (batch @ [r]) = bsz then dispatched @ [batch @ [r]] else dispatched) (tot + 1)
        = Inr (sc', batch', dispatched', tot')"
      using "1.prems"(4) s ok rr by (subst (asm) scanLoop.simps) (simp split: if_splits)
    show ?thesis
    proof (cases "tooLong sc3")
      case True
      from scanLoop_tooLong [OF True rest] show ?thesis .
    next
      case False
      with Scan_steps3 [OF n0] readRecord_scanner [OF rr]
      have n3: "buffered sc3 = None" "unread sc3 = drop 3 ls" "short_lines (take 3 ls)"
        by (simp_all add: u0)
      from n3(3) long have l3: "\<not> short_lines (unread sc3)"
        unfolding n3(2) using short_lines_take_drop by blast
      show ?thesis
      proof (cases "length (batch @ [r]) = bsz")
        case b: True
        with rest have "scanLoop bsz sc3 [] (dispatched @ [batch @ [r]]) (tot + 1)
            = Inr (sc', batch', dispatched', tot')" by simp
        from "1.IH"(1) [OF s [symmetric] eqTrueI [OF ok] rr refl b False n3(1) l3 this] show ?thesis .
      next
        case b: False
        with rest have "scanLoop bsz sc3 (batch @ [r]) dispatched (tot + 1)
            = Inr (sc', batch', dispatched', tot')" by simp
        from "1.IH"(2) [OF s [symmetric] eqTrueI [OF ok] rr refl b False n3(1) l3 this] show ?thesis .
      qed
    qed
  qed
qed

text \<open>
  The parsing loop in terms of the records of the stream, when every line is short: it
  fails with the error of the first record that is not well formed, and otherwise has
  appended every record's read and counted it.
\<close>

lemma scanLoop_Inl_iff:
  "short_lines ls \<Longrightarrow>
   scanLoop bsz \<lparr>unread = ls, token = t, buffered = None, tooLong = False\<rparr> batch dispatched tot = Inl e \<longleftrightarrow>
     (\<exists>k < length (records ls). (\<forall>j < k. wellformed (records ls ! j)) \<and>
        \<not> wellformed (records ls ! k) \<and> e = record_error (records ls ! k))"
proof (induction ls arbitrary: t batch dispatched tot rule: records.induct)
  case 1
  show ?case by (subst scanLoop.simps) (simp add: Scan_Nil)
next
  case (2 h rest)
  let ?rec = "(dropCR h, line rest 0, line rest 1, line rest 2)"
  from "2.prems" have sh: "length h < MaxScanTokenSize" and sr: "short_lines rest" by simp_all
  from sr have s3: "short_lines (take 3 rest)" and sd: "short_lines (drop 3 rest)"
    by (simp_all add: short_lines_take short_lines_drop)
  show ?case
  proof (cases "wellformed ?rec")
    case False
    have "scanLoop bsz \<lparr>unread = h # rest, token = t, buffered = None, tooLong = False\<rparr> batch dispatched tot = Inl (record_error ?rec)"
      using False by (subst scanLoop.simps) (simp add: Scan_Cons [OF sh] readRecord_rec [OF s3])
    moreover have "(\<exists>k < length (records (h # rest)). (\<forall>j < k. wellformed (records (h # rest) ! j)) \<and>
        \<not> wellformed (records (h # rest) ! k) \<and> e = record_error (records (h # rest) ! k))
       \<longleftrightarrow> e = record_error ?rec"
    proof
      assume "\<exists>k < length (records (h # rest)). (\<forall>j < k. wellformed (records (h # rest) ! j)) \<and>
        \<not> wellformed (records (h # rest) ! k) \<and> e = record_error (records (h # rest) ! k)"
      then obtain k where k: "\<forall>j < k. wellformed (records (h # rest) ! j)"
        "e = record_error (records (h # rest) ! k)" by blast
      have "k = 0"
      proof (rule ccontr)
        assume "k \<noteq> 0"
        with k(1) have "wellformed (records (h # rest) ! 0)" by blast
        with False show False by simp
      qed
      with k(2) show "e = record_error ?rec" by simp
    next
      assume "e = record_error ?rec"
      with False show "\<exists>k < length (records (h # rest)). (\<forall>j < k. wellformed (records (h # rest) ! j)) \<and>
        \<not> wellformed (records (h # rest) ! k) \<and> e = record_error (records (h # rest) ! k)"
        by (intro exI [of _ 0]) simp
    qed
    ultimately show ?thesis by auto
  next
    case True
    have unfold: "scanLoop bsz \<lparr>unread = h # rest, token = t, buffered = None, tooLong = False\<rparr> batch dispatched tot =
        (if length (batch @ [to_read ?rec]) = bsz
         then scanLoop bsz \<lparr>unread = drop 3 rest, token = line rest 2, buffered = None, tooLong = False\<rparr> []
                (dispatched @ [batch @ [to_read ?rec]]) (tot + 1)
         else scanLoop bsz \<lparr>unread = drop 3 rest, token = line rest 2, buffered = None, tooLong = False\<rparr>
                (batch @ [to_read ?rec]) dispatched (tot + 1))"
      using True by (subst scanLoop.simps) (simp add: Scan_Cons [OF sh] readRecord_rec [OF s3])
    have shift: "(\<exists>k < length (records (h # rest)). (\<forall>j < k. wellformed (records (h # rest) ! j)) \<and>
        \<not> wellformed (records (h # rest) ! k) \<and> e = record_error (records (h # rest) ! k))
       \<longleftrightarrow> (\<exists>k < length (records (drop 3 rest)). (\<forall>j < k. wellformed (records (drop 3 rest) ! j)) \<and>
        \<not> wellformed (records (drop 3 rest) ! k) \<and> e = record_error (records (drop 3 rest) ! k))"
      (is "?L \<longleftrightarrow> ?R")
    proof
      assume ?L
      then obtain k where k: "k < length (records (h # rest))"
        "\<forall>j < k. wellformed (records (h # rest) ! j)"
        "\<not> wellformed (records (h # rest) ! k)" "e = record_error (records (h # rest) ! k)"
        by blast
      from k(3) True obtain k' where k': "k = Suc k'" by (cases k) auto
      have "\<forall>j < k'. wellformed (records (drop 3 rest) ! j)"
      proof (intro allI impI)
        fix j assume "j < k'"
        then have "Suc j < k" using k' by simp
        with k(2) have "wellformed (records (h # rest) ! Suc j)" by blast
        then show "wellformed (records (drop 3 rest) ! j)" by simp
      qed
      with k k' show ?R by (intro exI [of _ k']) simp
    next
      assume ?R
      then obtain k where k: "k < length (records (drop 3 rest))"
        "\<forall>j < k. wellformed (records (drop 3 rest) ! j)"
        "\<not> wellformed (records (drop 3 rest) ! k)" "e = record_error (records (drop 3 rest) ! k)"
        by blast
      have "\<forall>j < Suc k. wellformed (records (h # rest) ! j)"
      proof (intro allI impI)
        fix j assume "j < Suc k"
        then show "wellformed (records (h # rest) ! j)"
          using True k(2) by (cases j) auto
      qed
      with k show ?L by (intro exI [of _ "Suc k"]) simp
    qed
    show ?thesis
      unfolding unfold shift using "2.IH" [OF sd] by simp
  qed
qed

lemma scanLoop_Inr:
  "short_lines ls \<Longrightarrow>
   scanLoop bsz \<lparr>unread = ls, token = t, buffered = None, tooLong = False\<rparr> batch dispatched tot = Inr (sc', batch', dispatched', tot') \<Longrightarrow>
     concat dispatched' @ batch' = concat dispatched @ batch @ map to_read (records ls) \<and>
     tot' = tot + word_of_nat (length (records ls)) \<and>
     list_all wellformed (records ls) \<and> \<not> tooLong sc'"
proof (induction ls arbitrary: t batch dispatched tot rule: records.induct)
  case 1
  then show ?case by (subst (asm) scanLoop.simps) (auto simp add: Scan_Nil)
next
  case (2 h rest)
  let ?rec = "(dropCR h, line rest 0, line rest 1, line rest 2)"
  from "2.prems"(1) have sh: "length h < MaxScanTokenSize" and sr: "short_lines rest" by simp_all
  from sr have s3: "short_lines (take 3 rest)" and sd: "short_lines (drop 3 rest)"
    by (simp_all add: short_lines_take short_lines_drop)
  from "2.prems"(2) have wf: "wellformed ?rec"
    by (subst (asm) scanLoop.simps)
       (auto simp: Scan_Cons [OF sh] readRecord_rec [OF s3] split: if_splits)
  show ?case
  proof (cases "length (batch @ [to_read ?rec]) = bsz")
    case True
    with "2.prems"(2) wf have
      "scanLoop bsz \<lparr>unread = drop 3 rest, token = line rest 2, buffered = None, tooLong = False\<rparr> []
          (dispatched @ [batch @ [to_read ?rec]]) (tot + 1) = Inr (sc', batch', dispatched', tot')"
      by (subst (asm) scanLoop.simps) (simp add: Scan_Cons [OF sh] readRecord_rec [OF s3])
    from "2.IH" [OF sd this] wf show ?thesis by simp
  next
    case False
    with "2.prems"(2) wf have
      "scanLoop bsz \<lparr>unread = drop 3 rest, token = line rest 2, buffered = None, tooLong = False\<rparr>
          (batch @ [to_read ?rec]) dispatched (tot + 1) = Inr (sc', batch', dispatched', tot')"
      by (subst (asm) scanLoop.simps) (simp add: Scan_Cons [OF sh] readRecord_rec [OF s3])
    from "2.IH" [OF sd this] wf show ?thesis by simp
  qed
qed

lemma parseAndDispatch_long:
  assumes "\<not> short_lines ls"
  shows "\<exists>e. parseAndDispatch bsz ls = Inl e"
proof (cases "scanLoop bsz (NewScanner ls) [] [] 0")
  case (Inl e)
  then show ?thesis by (simp add: parseAndDispatch_def)
next
  case (Inr res)
  obtain sc' batch' dispatched' tot' where res: "res = (sc', batch', dispatched', tot')"
    by (cases res) auto
  have "tooLong sc'"
    using assms Inr unfolding res by (intro scanLoop_long [of "NewScanner ls"]) (simp_all add: NewScanner_def)
  with Inr res show ?thesis by (simp add: parseAndDispatch_def Scanner_Err_def)
qed

lemma parseAndDispatch_Inl_iff:
  "short_lines ls \<Longrightarrow>
   parseAndDispatch bsz ls = Inl e \<longleftrightarrow>
     (\<exists>k < length (records ls). (\<forall>j < k. wellformed (records ls ! j)) \<and>
        \<not> wellformed (records ls ! k) \<and> e = record_error (records ls ! k))"
  using scanLoop_Inl_iff [of ls bsz "[]" "[]" "[]" 0 e] scanLoop_Inr [of ls bsz "[]" "[]" "[]" 0]
  by (auto simp: parseAndDispatch_def NewScanner_def Scanner_Err_def split: sum.splits)

lemma parseAndDispatch_Inr:
  assumes "parseAndDispatch bsz ls = Inr (batches, tot)"
  shows "concat batches = map to_read (records ls)"
    and "tot = word_of_nat (length (records ls))"
    and "list_all wellformed (records ls)"
    and "short_lines ls"
proof -
  from assms parseAndDispatch_long [of ls bsz] show sl: "short_lines ls" by auto
  from assms obtain sc' batch dispatched where
    s: "scanLoop bsz \<lparr>unread = ls, token = [], buffered = None, tooLong = False\<rparr> [] [] 0 = Inr (sc', batch, dispatched, tot)"
    and b: "batches = (if 0 < length batch then dispatched @ [batch] else dispatched)"
    by (auto simp: parseAndDispatch_def NewScanner_def split: sum.splits option.splits)
  from scanLoop_Inr [OF sl s] b
  show "concat batches = map to_read (records ls)"
    and "tot = word_of_nat (length (records ls))"
    and "list_all wellformed (records ls)"
    by (auto split: if_splits)
qed

lemma trim_Err_cases:
  "trim p r = Err msg \<Longrightarrow> msg = ''adapter missing'' \<or> msg = ''too short'' \<or> msg = ''low quality''"
  unfolding trim_def
  by (cases rule: trimRead_cases [of "Adapter p" "Min5Match p" r "MinLen p" "Trim5 p" "Trim3 p" "MaxError p"])
     simp_all

lemma mset_concat_update:
  "k < length ws \<Longrightarrow> ws ! k = r # rest \<Longrightarrow>
     mset (concat ws) = add_mset r (mset (concat (ws[k := rest])))"
proof (induction ws arbitrary: k)
  case Nil
  then show ?case by simp
next
  case (Cons w ws)
  then show ?case by (cases k) simp_all
qed

lemma length_concat_update:
  "k < length ws \<Longrightarrow> ws ! k = r # rest \<Longrightarrow>
     length (concat ws) = Suc (length (concat (ws[k := rest])))"
  using mset_concat_update [of k ws r rest] by (metis size_add_mset size_mset)

lemma mset_survivors_cong:
  "mset xs = mset ys \<Longrightarrow> mset (survivors p xs) = mset (survivors p ys)"
proof -
  have "mset (survivors p zs) = (\<Sum>r \<in># mset zs. mset (case trim p r of Ok t \<Rightarrow> [t] | _ \<Rightarrow> []))" for zs
    by (induction zs) (simp_all add: survivors_def)
  then show "mset xs = mset ys \<Longrightarrow> mset (survivors p xs) = mset (survivors p ys)" by simp
qed

lemma rejected_cong: "mset xs = mset ys \<Longrightarrow> rejected p msg xs = rejected p msg ys"
  unfolding rejected_def by (metis mset_filter size_mset)

lemma survivors_Cons:
  "survivors p (r # rs) = (case trim p r of Ok t \<Rightarrow> [t] | _ \<Rightarrow> []) @ survivors p rs"
  by (simp add: survivors_def)

lemma rejected_Cons:
  "rejected p msg (r # rs) = (if trim p r = Err msg then 1 else 0) + rejected p msg rs"
  by (simp add: rejected_def)

lemma countRejection_fields:
  "workers (countRejection msg st) = workers st"
  "adapterMissingCount (countRejection msg st)
     = adapterMissingCount st + (if msg = ''adapter missing'' then 1 else 0)"
  "tooShortCount (countRejection msg st)
     = tooShortCount st + (if msg = ''too short'' then 1 else 0)"
  "lowQualityCount (countRejection msg st)
     = lowQualityCount st + (if msg = ''low quality'' then 1 else 0)"
  by (simp_all add: countRejection_def)

lemma countRejection_more: "Pool.more (countRejection msg st) = Pool.more st"
  by (simp add: countRejection_def)

lemma countRejection_trimmedReads [simp]:
  "trimmedReads (countRejection msg st) = trimmedReads st"
  by (simp add: countRejection_def)

lemma countRejection_stream [simp]:
  "resultsChan (countRejection msg st) = resultsChan st"
  "outWriter (countRejection msg st) = outWriter st"
  "totalTrimmedReads (countRejection msg st) = totalTrimmedReads st"
  by (simp_all add: countRejection_def)

text \<open>
  One step of the buffering pipeline takes a read \<open>r\<close> from the pending ones and accounts
  for it in exactly one place.
\<close>

lemma step_effect:
  assumes "step p st st'"
  obtains r where "mset (pending st) = add_mset r (mset (pending st'))"
    and "trim p r \<noteq> Panic"
    and "trimmedReads st' = trimmedReads st @ (case trim p r of Ok t \<Rightarrow> [t] | _ \<Rightarrow> [])"
    and "adapterMissingCount st' = adapterMissingCount st + (if trim p r = Err ''adapter missing'' then 1 else 0)"
    and "tooShortCount st' = tooShortCount st + (if trim p r = Err ''too short'' then 1 else 0)"
    and "lowQualityCount st' = lowQualityCount st + (if trim p r = Err ''low quality'' then 1 else 0)"
  using assms
proof cases
  case (iteration k r rest st1)
  from iteration(2,3) have m: "mset (concat (workers st)) = add_mset r (mset (concat ((workers st)[k := rest])))"
    by (rule mset_concat_update)
  show ?thesis
  proof (cases "trim p r")
    case (Ok t)
    with iteration have st1: "st1 = st\<lparr>trimmedReads := trimmedReads st @ [t]\<rparr>"
      by (simp add: processOne_def)
    show ?thesis
      by (rule that [of r]) (use m Ok iteration(1) st1 in \<open>simp_all add: pending_def\<close>)
  next
    case (Err msg)
    with iteration have st1: "st1 = countRejection msg st"
      by (simp add: processOne_def)
    show ?thesis
      by (rule that [of r])
         (use m Err iteration(1) st1 in \<open>simp_all add: pending_def countRejection_fields\<close>)
  next
    case Panic
    with iteration show ?thesis by (simp add: processOne_def)
  qed
qed

lemma joined_pending: "joined st \<Longrightarrow> pending st = []"
  by (auto simp: joined_def pending_def list_all_iff)

lemma survivors_Nil [simp]: "survivors p [] = []"
  by (simp add: survivors_def)

lemma rejected_Nil [simp]: "rejected p msg [] = 0"
  by (simp add: rejected_def)

lemma step_conserved:
  assumes "step p st st'"
  shows "mset (trimmedReads st') + mset (survivors p (pending st'))
           = mset (trimmedReads st) + mset (survivors p (pending st))"
    and "adapterMissingCount st' + word_of_nat (rejected p ''adapter missing'' (pending st'))
           = adapterMissingCount st + word_of_nat (rejected p ''adapter missing'' (pending st))"
    and "tooShortCount st' + word_of_nat (rejected p ''too short'' (pending st'))
           = tooShortCount st + word_of_nat (rejected p ''too short'' (pending st))"
    and "lowQualityCount st' + word_of_nat (rejected p ''low quality'' (pending st'))
           = lowQualityCount st + word_of_nat (rejected p ''low quality'' (pending st))"
    and "word_of_nat (length (pending st')) + word_of_nat (length (trimmedReads st'))
           + adapterMissingCount st' + tooShortCount st' + lowQualityCount st'
         = word_of_nat (length (pending st)) + word_of_nat (length (trimmedReads st))
           + adapterMissingCount st + tooShortCount st + lowQualityCount st"
proof -
  from assms obtain r where
    m: "mset (pending st) = add_mset r (mset (pending st'))"
    and np: "trim p r \<noteq> Panic"
    and tr: "trimmedReads st' = trimmedReads st @ (case trim p r of Ok t \<Rightarrow> [t] | _ \<Rightarrow> [])"
    and am: "adapterMissingCount st' = adapterMissingCount st + (if trim p r = Err ''adapter missing'' then 1 else 0)"
    and ts: "tooShortCount st' = tooShortCount st + (if trim p r = Err ''too short'' then 1 else 0)"
    and lq: "lowQualityCount st' = lowQualityCount st + (if trim p r = Err ''low quality'' then 1 else 0)"
    by (rule step_effect)
  from m have m': "mset (pending st) = mset (r # pending st')" by simp
  have sv: "mset (survivors p (pending st)) = mset (survivors p (r # pending st'))"
    by (rule mset_survivors_cong [OF m'])
  have rj: "rejected p msg (pending st) = rejected p msg (r # pending st')" for msg
    by (rule rejected_cong [OF m'])
  have ln: "length (pending st) = Suc (length (pending st'))"
    using m by (metis size_add_mset size_mset)
  show "mset (trimmedReads st') + mset (survivors p (pending st'))
           = mset (trimmedReads st) + mset (survivors p (pending st))"
    unfolding sv tr survivors_Cons by (cases "trim p r") simp_all
  show "adapterMissingCount st' + word_of_nat (rejected p ''adapter missing'' (pending st'))
           = adapterMissingCount st + word_of_nat (rejected p ''adapter missing'' (pending st))"
    unfolding rj am rejected_Cons by simp
  show "tooShortCount st' + word_of_nat (rejected p ''too short'' (pending st'))
           = tooShortCount st + word_of_nat (rejected p ''too short'' (pending st))"
    unfolding rj ts rejected_Cons by simp
  show "lowQualityCount st' + word_of_nat (rejected p ''low quality'' (pending st'))
           = lowQualityCount st + word_of_nat (rejected p ''low quality'' (pending st))"
    unfolding rj lq rejected_Cons by simp
  show "word_of_nat (length (pending st')) + word_of_nat (length (trimmedReads st'))
           + adapterMissingCount st' + tooShortCount st' + lowQualityCount st'
         = word_of_nat (length (pending st)) + word_of_nat (length (trimmedReads st))
           + adapterMissingCount st + tooShortCount st + lowQualityCount st"
  proof (cases "trim p r")
    case (Ok t)
    then show ?thesis unfolding ln tr am ts lq by simp
  next
    case (Err msg)
    from trim_Err_cases [OF Err] Err show ?thesis unfolding ln tr am ts lq by auto
  next
    case Panic
    with np show ?thesis by simp
  qed
qed

lemma steps_conserved:
  assumes "rtranclp (step p) st st'"
  shows "mset (trimmedReads st') + mset (survivors p (pending st'))
           = mset (trimmedReads st) + mset (survivors p (pending st))
     \<and> adapterMissingCount st' + word_of_nat (rejected p ''adapter missing'' (pending st'))
           = adapterMissingCount st + word_of_nat (rejected p ''adapter missing'' (pending st))
     \<and> tooShortCount st' + word_of_nat (rejected p ''too short'' (pending st'))
           = tooShortCount st + word_of_nat (rejected p ''too short'' (pending st))
     \<and> lowQualityCount st' + word_of_nat (rejected p ''low quality'' (pending st'))
           = lowQualityCount st + word_of_nat (rejected p ''low quality'' (pending st))
     \<and> word_of_nat (length (pending st')) + word_of_nat (length (trimmedReads st'))
           + adapterMissingCount st' + tooShortCount st' + lowQualityCount st'
         = word_of_nat (length (pending st)) + word_of_nat (length (trimmedReads st))
           + adapterMissingCount st + tooShortCount st + lowQualityCount st"
  using assms
proof (induction rule: rtranclp_induct)
  case base
  show ?case by simp
next
  case (step y z)
  from step_conserved [OF step.hyps(2)] step.IH show ?case by simp
qed

text \<open>
  The state in which the buffering pipeline is joined, whatever the batches and the
  schedule were.
\<close>

lemma buffered_final:
  assumes "rtranclp (step p) (initBuffered batches) fin" and "joined fin"
  shows "mset (trimmedReads fin) = mset (survivors p (concat batches))"
    and "adapterMissingCount fin = word_of_nat (rejected p ''adapter missing'' (concat batches))"
    and "tooShortCount fin = word_of_nat (rejected p ''too short'' (concat batches))"
    and "lowQualityCount fin = word_of_nat (rejected p ''low quality'' (concat batches))"
    and "word_of_nat (length (trimmedReads fin))
           + adapterMissingCount fin + tooShortCount fin + lowQualityCount fin
         = (word_of_nat (length (concat batches)) :: int64)"
proof -
  have p0: "pending (initBuffered batches) = concat batches"
    by (simp add: pending_def initBuffered_def)
  have i0: "trimmedReads (initBuffered batches) = []"
    "adapterMissingCount (initBuffered batches) = 0"
    "tooShortCount (initBuffered batches) = 0"
    "lowQualityCount (initBuffered batches) = 0"
    by (simp_all add: initBuffered_def)
  note c = steps_conserved [OF assms(1), unfolded joined_pending [OF assms(2)] p0 i0]
  from c show "mset (trimmedReads fin) = mset (survivors p (concat batches))" by simp
  from c show "adapterMissingCount fin = word_of_nat (rejected p ''adapter missing'' (concat batches))"
    by simp
  from c show "tooShortCount fin = word_of_nat (rejected p ''too short'' (concat batches))"
    by simp
  from c show "lowQualityCount fin = word_of_nat (rejected p ''low quality'' (concat batches))"
    by simp
  from c [THEN conjunct2, THEN conjunct2, THEN conjunct2, THEN conjunct2]
  show "word_of_nat (length (trimmedReads fin))
           + adapterMissingCount fin + tooShortCount fin + lowQualityCount fin
         = (word_of_nat (length (concat batches)) :: int64)"
    by simp
qed

lemma processOne_workers: "processOne p r st = Some st' \<Longrightarrow> workers st' = workers st"
  by (auto simp: processOne_def countRejection_fields split: trim_result.splits)

lemma processOne_update_workers:
  "processOne p r (st\<lparr>workers := ws\<rparr>) = map_option (\<lambda>s. s\<lparr>workers := ws\<rparr>) (processOne p r st)"
  by (simp add: processOne_def countRejection_def split: trim_result.splits)

lemma processBatch_update_workers:
  "processBatch p b (st\<lparr>workers := ws\<rparr>) = map_option (\<lambda>s. s\<lparr>workers := ws\<rparr>) (processBatch p b st)"
proof (induction b arbitrary: st)
  case Nil
  show ?case by simp
next
  case (Cons r b)
  show ?case
    by (cases "processOne p r st") (simp_all add: processOne_update_workers Cons.IH)
qed

lemma processBatch_workers: "processBatch p b st = Some st' \<Longrightarrow> workers st' = workers st"
proof (induction b arbitrary: st)
  case Nil
  then show ?case by simp
next
  case (Cons r b)
  then show ?case
    by (auto split: option.splits dest: processOne_workers)
qed

text \<open>
  A goroutine that runs its whole batch without being interleaved is one execution of
  the pipeline: \<open>processBatch\<close> as a function agrees with the step relation.
\<close>

lemma processBatch_steps:
  assumes "processBatch p b st = Some st'" and "k < length (workers st)" and "workers st ! k = b"
  shows "rtranclp (step p) st (st'\<lparr>workers := (workers st)[k := []]\<rparr>)"
  using assms
proof (induction b arbitrary: st st')
  case Nil
  then have "st' = st" and "(workers st)[k := []] = workers st"
    by (simp_all add: list_update_same_conv)
  then show ?case by simp
next
  case (Cons r b)
  from Cons.prems(1) obtain st1 where
    one: "processOne p r st = Some st1" and rest: "processBatch p b st1 = Some st'"
    by (auto split: option.splits)
  let ?st2 = "st1\<lparr>workers := (workers st)[k := b]\<rparr>"
  from Cons.prems(2,3) one have s: "step p st ?st2"
    by (intro step.iteration) simp_all
  have w2: "workers ?st2 = (workers st)[k := b]" by simp
  have "processBatch p b ?st2 = Some (st'\<lparr>workers := (workers st)[k := b]\<rparr>)"
    by (simp add: processBatch_update_workers rest)
  from Cons.IH [OF this] Cons.prems(2)
  have "rtranclp (step p) ?st2 (st'\<lparr>workers := (workers st)[k := []]\<rparr>)"
    by simp
  with s show ?case by (rule converse_rtranclp_into_rtranclp)
qed

lemma stepS_conserved:
  assumes "stepS p st st'"
  shows "adapterMissingCount st' + word_of_nat (rejected p ''adapter missing'' (pending st'))
           = adapterMissingCount st + word_of_nat (rejected p ''adapter missing'' (pending st))
    \<and> tooShortCount st' + word_of_nat (rejected p ''too short'' (pending st'))
           = tooShortCount st + word_of_nat (rejected p ''too short'' (pending st))
    \<and> lowQualityCount st' + word_of_nat (rejected p ''low quality'' (pending st'))
           = lowQualityCount st + word_of_nat (rejected p ''low quality'' (pending st))
    \<and> totalTrimmedReads st' + word_of_nat (length (resultsChan st'))
           + word_of_nat (length (survivors p (pending st')))
         = totalTrimmedReads st + word_of_nat (length (resultsChan st))
           + word_of_nat (length (survivors p (pending st)))
    \<and> word_of_nat (length (pending st')) + word_of_nat (length (resultsChan st'))
           + totalTrimmedReads st'
           + adapterMissingCount st' + tooShortCount st' + lowQualityCount st'
         = word_of_nat (length (pending st)) + word_of_nat (length (resultsChan st))
           + totalTrimmedReads st
           + adapterMissingCount st + tooShortCount st + lowQualityCount st"
  using assms
proof cases
  case (reject k r rest msg)
  from reject(2,3) have m: "mset (pending st) = mset (r # pending st')"
    using mset_concat_update [of k "workers st" r rest]
    by (simp add: pending_def reject(1) countRejection_fields)
  have sv: "length (survivors p (pending st)) = length (survivors p (r # pending st'))"
    using mset_survivors_cong [OF m, of p] by (metis size_mset)
  have rj: "rejected p mg (pending st) = rejected p mg (r # pending st')" for mg
    by (rule rejected_cong [OF m])
  have ln: "length (pending st) = Suc (length (pending st'))"
    using m by (metis length_Cons size_mset)
  from trim_Err_cases [OF reject(4)] reject(4)
  show ?thesis
    unfolding sv rj ln survivors_Cons rejected_Cons
    by (auto simp: reject(1) countRejection_fields)
next
  case (send k r rest t)
  from send(2,3) have m: "mset (pending st) = mset (r # pending st')"
    using mset_concat_update [of k "workers st" r rest]
    by (simp add: pending_def send(1))
  have sv: "length (survivors p (pending st)) = length (survivors p (r # pending st'))"
    using mset_survivors_cong [OF m, of p] by (metis size_mset)
  have rj: "rejected p mg (pending st) = rejected p mg (r # pending st')" for mg
    by (rule rejected_cong [OF m])
  have ln: "length (pending st) = Suc (length (pending st'))"
    using m by (metis length_Cons size_mset)
  show ?thesis
    unfolding sv rj ln survivors_Cons rejected_Cons
    by (simp add: send(1) send(4))
next
  case (receive t ch)
  have "pending st' = pending st"
    by (simp add: pending_def receive(1))
  then show ?thesis
    by (simp add: receive)
qed

lemma stepsS_conserved:
  assumes "rtranclp (stepS p) st st'"
  shows "adapterMissingCount st' + word_of_nat (rejected p ''adapter missing'' (pending st'))
           = adapterMissingCount st + word_of_nat (rejected p ''adapter missing'' (pending st))
    \<and> tooShortCount st' + word_of_nat (rejected p ''too short'' (pending st'))
           = tooShortCount st + word_of_nat (rejected p ''too short'' (pending st))
    \<and> lowQualityCount st' + word_of_nat (rejected p ''low quality'' (pending st'))
           = lowQualityCount st + word_of_nat (rejected p ''low quality'' (pending st))
    \<and> totalTrimmedReads st' + word_of_nat (length (resultsChan st'))
           + word_of_nat (length (survivors p (pending st')))
         = totalTrimmedReads st + word_of_nat (length (resultsChan st))
           + word_of_nat (length (survivors p (pending st)))
    \<and> word_of_nat (length (pending st')) + word_of_nat (length (resultsChan st'))
           + totalTrimmedReads st'
           + adapterMissingCount st' + tooShortCount st' + lowQualityCount st'
         = word_of_nat (length (pending st)) + word_of_nat (length (resultsChan st))
           + totalTrimmedReads st
           + adapterMissingCount st + tooShortCount st + lowQualityCount st"
  using assms
proof (induction rule: rtranclp_induct)
  case base
  show ?case by simp
next
  case (step y z)
  from stepS_conserved [OF step.hyps(2)] step.IH show ?case by simp
qed

lemma stepS_output:
  assumes "stepS p st st'"
    and "outWriter st = foldl writeResult wr0 rs"
    and "mset rs + mset (resultsChan st) + mset (survivors p (pending st)) = M"
  shows "\<exists>rs'. outWriter st' = foldl writeResult wr0 rs' \<and>
           mset rs' + mset (resultsChan st') + mset (survivors p (pending st')) = M"
  using assms(1)
proof cases
  case (reject k r rest msg)
  from reject(2,3) have m: "mset (pending st) = mset (r # pending st')"
    using mset_concat_update [of k "workers st" r rest]
    by (simp add: pending_def reject(1) countRejection_fields)
  have "mset (survivors p (pending st)) = mset (survivors p (pending st'))"
    unfolding mset_survivors_cong [OF m] survivors_Cons by (simp add: reject(4))
  with assms(2,3) show ?thesis
    by (intro exI [of _ rs]) (simp add: reject(1))
next
  case (send k r rest t)
  from send(2,3) have m: "mset (pending st) = mset (r # pending st')"
    using mset_concat_update [of k "workers st" r rest]
    by (simp add: pending_def send(1))
  have "mset (survivors p (pending st)) = add_mset t (mset (survivors p (pending st')))"
    unfolding mset_survivors_cong [OF m] survivors_Cons by (simp add: send(4))
  with assms(2,3) show ?thesis
    by (intro exI [of _ rs]) (simp add: send(1))
next
  case (receive t ch)
  have "pending st' = pending st"
    by (simp add: pending_def receive(1))
  with assms(2,3) receive show ?thesis
    by (intro exI [of _ "rs @ [t]"]) simp
qed

lemma stepsS_output:
  assumes "rtranclp (stepS p) st st'"
    and "outWriter st = foldl writeResult wr0 rs"
    and "mset rs + mset (resultsChan st) + mset (survivors p (pending st)) = M"
  shows "\<exists>rs'. outWriter st' = foldl writeResult wr0 rs' \<and>
           mset rs' + mset (resultsChan st') + mset (survivors p (pending st')) = M"
  using assms
proof (induction rule: rtranclp_induct)
  case base
  then show ?case by blast
next
  case (step y z)
  from step.IH [OF step.prems] obtain rs1 where
    "outWriter y = foldl writeResult wr0 rs1"
    "mset rs1 + mset (resultsChan y) + mset (survivors p (pending y)) = M"
    by blast
  then show ?case by (rule stepS_output [OF step.hyps(2)])
qed

text \<open>
  The state in which the streaming pipeline has finished (goroutines joined, channel
  drained), whatever the batches and the schedule were.
\<close>

lemma stream_final:
  assumes "rtranclp (stepS p) (initStream batches wr) fin" and "joined fin"
    and "resultsChan fin = []"
  shows "adapterMissingCount fin = word_of_nat (rejected p ''adapter missing'' (concat batches))"
    and "tooShortCount fin = word_of_nat (rejected p ''too short'' (concat batches))"
    and "lowQualityCount fin = word_of_nat (rejected p ''low quality'' (concat batches))"
    and "totalTrimmedReads fin = word_of_nat (length (survivors p (concat batches)))"
    and "totalTrimmedReads fin + adapterMissingCount fin + tooShortCount fin + lowQualityCount fin
         = (word_of_nat (length (concat batches)) :: int64)"
    and "\<exists>rs. outWriter fin = foldl writeResult wr rs \<and> mset rs = mset (survivors p (concat batches))"
proof -
  have p0: "pending (initStream batches wr) = concat batches"
    by (simp add: pending_def initStream_def)
  have i0: "resultsChan (initStream batches wr) = []"
    "totalTrimmedReads (initStream batches wr) = 0"
    "adapterMissingCount (initStream batches wr) = 0"
    "tooShortCount (initStream batches wr) = 0"
    "lowQualityCount (initStream batches wr) = 0"
    "outWriter (initStream batches wr) = wr"
    by (simp_all add: initStream_def)
  note c = stepsS_conserved [OF assms(1), unfolded joined_pending [OF assms(2)] assms(3) p0 i0]
  from c show "adapterMissingCount fin = word_of_nat (rejected p ''adapter missing'' (concat batches))"
    by simp
  from c show "tooShortCount fin = word_of_nat (rejected p ''too short'' (concat batches))"
    by simp
  from c show "lowQualityCount fin = word_of_nat (rejected p ''low quality'' (concat batches))"
    by simp
  from c [THEN conjunct2, THEN conjunct2, THEN conjunct2, THEN conjunct1]
  show "totalTrimmedReads fin = word_of_nat (length (survivors p (concat batches)))"
    by simp
  from c [THEN conjunct2, THEN conjunct2, THEN conjunct2, THEN conjunct2]
  show "totalTrimmedReads fin + adapterMissingCount fin + tooShortCount fin + lowQualityCount fin
         = (word_of_nat (length (concat batches)) :: int64)"
    by simp
  have "\<exists>rs'. outWriter fin = foldl writeResult wr rs' \<and>
           mset rs' + mset (resultsChan fin) + mset (survivors p (pending fin))
             = mset (survivors p (concat batches))"
    by (rule stepsS_output [OF assms(1), of wr "[]"]) (simp_all add: i0 p0)
  then show "\<exists>rs. outWriter fin = foldl writeResult wr rs \<and> mset rs = mset (survivors p (concat batches))"
    by (simp add: assms(3) joined_pending [OF assms(2)])
qed

lemma WriteString_ok:
  "0 < budget wr \<Longrightarrow> WriteString wr s = (\<lparr>written = written wr @ s, budget = budget wr - 1\<rparr>, None)"
  by (simp add: WriteString_def)

lemma WriteString_failed: "budget wr = 0 \<Longrightarrow> WriteString wr s = (wr, Some WriteError)"
  by (simp add: WriteString_def)

lemma WriteString_error: "WriteString wr s = (wr', Some e) \<Longrightarrow> e = WriteError"
  by (auto simp: WriteString_def split: if_splits)

lemma writeTrimmedReads_error: "writeTrimmedReads rs wr = (Some e, wr') \<Longrightarrow> e = WriteError"
proof (induction rs arbitrary: wr)
  case Nil
  then show ?case by simp
next
  case (Cons r rs)
  then show ?case
    by (auto split: prod.splits option.splits dest: WriteString_error)
qed

text \<open>
  \<open>writeTrimmedReads\<close> writes the text of every read when no write fails, and returns
  the error as soon as one does.
\<close>

lemma writeTrimmedReads_ok:
  "4 * length rs \<le> budget wr \<Longrightarrow>
     writeTrimmedReads rs wr =
       (None, \<lparr>written = written wr @ concat (map fastqText rs), budget = budget wr - 4 * length rs\<rparr>)"
proof (induction rs arbitrary: wr)
  case Nil
  show ?case by simp
next
  case (Cons r rs)
  then have b: "4 \<le> budget wr" by simp
  let ?w4 = "\<lparr>written = written wr @ fastqText r, budget = budget wr - 4\<rparr>"
  have "writeTrimmedReads (r # rs) wr = writeTrimmedReads rs ?w4"
    using b by (simp add: WriteString_def fastqText_def) (simp add: eval_nat_numeral)
  also have "\<dots> = (None, \<lparr>written = written ?w4 @ concat (map fastqText rs),
                             budget = budget ?w4 - 4 * length rs\<rparr>)"
    using Cons.prems by (intro Cons.IH) simp
  finally show ?case by simp
qed

lemma writeTrimmedReads_fails:
  "budget wr < 4 * length rs \<Longrightarrow> \<exists>wr'. writeTrimmedReads rs wr = (Some WriteError, wr')"
proof (induction rs arbitrary: wr)
  case Nil
  then show ?case by simp
next
  case (Cons r rs)
  show ?case
  proof (cases "4 \<le> budget wr")
    case True
    let ?w4 = "\<lparr>written = written wr @ fastqText r, budget = budget wr - 4\<rparr>"
    have "writeTrimmedReads (r # rs) wr = writeTrimmedReads rs ?w4"
      using True by (simp add: WriteString_def fastqText_def) (simp add: eval_nat_numeral)
    moreover have "\<exists>wr'. writeTrimmedReads rs ?w4 = (Some WriteError, wr')"
      using Cons.prems True by (intro Cons.IH) simp
    ultimately show ?thesis by simp
  next
    case False
    then have "budget wr = 0 \<or> budget wr = 1 \<or> budget wr = 2 \<or> budget wr = 3" by arith
    then show ?thesis
      by (elim disjE) (simp_all add: WriteString_def)
  qed
qed

lemma writeResult_ok:
  "4 \<le> budget wr \<Longrightarrow>
     writeResult wr r = \<lparr>written = written wr @ fastqText r, budget = budget wr - 4\<rparr>"
  by (simp add: writeResult_def WriteString_def fastqText_def Let_def)

lemma writeResult_failed: "budget wr = 0 \<Longrightarrow> writeResult wr r = wr"
  by (simp add: writeResult_def WriteString_def Let_def)

lemma records_exact:
  "length ls = 4 * n \<Longrightarrow>
     length (records ls) = n \<and>
     (\<forall>i < n. records ls ! i = (dropCR (ls ! (4 * i)), dropCR (ls ! (4 * i + 1)),
                                   dropCR (ls ! (4 * i + 2)), dropCR (ls ! (4 * i + 3))))"
proof (induction n arbitrary: ls)
  case 0
  then show ?case by simp
next
  case (Suc n)
  then obtain h a b c rest where ls: "ls = h # a # b # c # rest"
    by (cases ls; cases "tl ls"; cases "tl (tl ls)"; cases "tl (tl (tl ls))") auto
  with Suc.prems have "length rest = 4 * n" by simp
  from Suc.IH [OF this] have
    l: "length (records rest) = n"
    and e: "\<forall>i < n. records rest ! i = (dropCR (rest ! (4 * i)), dropCR (rest ! (4 * i + 1)),
                                       dropCR (rest ! (4 * i + 2)), dropCR (rest ! (4 * i + 3)))"
    by simp_all
  have r: "records ls = (dropCR h, dropCR a, dropCR b, dropCR c) # records rest"
    by (simp add: ls line_def)
  have "records ls ! i = (dropCR (ls ! (4 * i)), dropCR (ls ! (4 * i + 1)),
                          dropCR (ls ! (4 * i + 2)), dropCR (ls ! (4 * i + 3)))"
    if "i < Suc n" for i
  proof (cases i)
    case 0
    then show ?thesis by (simp add: r) (simp add: ls)
  next
    case (Suc j)
    with that e have "records rest ! j = (dropCR (rest ! (4 * j)), dropCR (rest ! (4 * j + 1)),
                                          dropCR (rest ! (4 * j + 2)), dropCR (rest ! (4 * j + 3)))"
      by simp
    then show ?thesis by (simp add: r Suc) (simp add: ls ac_simps)
  qed
  with l r show ?case by simp
qed

lemma first_bad_ex:
  "\<not> list_all P xs \<Longrightarrow> \<exists>k < length xs. (\<forall>j < k. P (xs ! j)) \<and> \<not> P (xs ! k)"
proof (induction xs)
  case Nil
  then show ?case by simp
next
  case (Cons x xs)
  show ?case
  proof (cases "P x")
    case False
    then show ?thesis by (intro exI [of _ 0]) simp
  next
    case True
    with Cons.prems have "\<not> list_all P xs" by simp
    from Cons.IH [OF this] obtain k where
      k: "k < length xs" "\<forall>j < k. P (xs ! j)" "\<not> P (xs ! k)" by blast
    have "\<forall>j < Suc k. P ((x # xs) ! j)"
    proof (intro allI impI)
      fix j assume "j < Suc k"
      then show "P ((x # xs) ! j)" using True k(2) by (cases j) auto
    qed
    with k show ?thesis by (intro exI [of _ "Suc k"]) simp
  qed
qed

lemma first_bad_iff:
  "(\<exists>k < length xs. (\<forall>j < k. P (xs ! j)) \<and> \<not> P (xs ! k)) \<longleftrightarrow> \<not> list_all P xs"
  using first_bad_ex [of P xs] by (auto simp: list_all_length)

lemma record_error_structural: "record_error rec \<noteq> WriteError"
  by (simp add: record_error_def split: prod.splits)

lemma scanLoop_error_structural:
  "scanLoop bsz sc batch dispatched tot = Inl e \<Longrightarrow> e \<noteq> WriteError"
proof (induction bsz sc batch dispatched tot rule: scanLoop.induct)
  case (1 bsz sc batch dispatched tot)
  obtain ok sc0 where s: "Scan sc = (ok, sc0)" by (cases "Scan sc")
  show ?case
  proof (cases ok)
    case False
    with "1.prems" s show ?thesis by (subst (asm) scanLoop.simps) simp
  next
    case True
    show ?thesis
    proof (cases "readRecord sc0")
      case (Inl e')
      with "1.prems" s True have "e = e'" by (subst (asm) scanLoop.simps) simp
      with Inl show ?thesis by (auto simp: readRecord_def Let_def split: if_splits)
    next
      case (Inr x)
      obtain r sc3 where x: "x = (r, sc3)" by (cases x)
      show ?thesis
      proof (cases "length (batch @ [r]) = bsz")
        case b: True
        with "1.prems" s True Inr x have
          "scanLoop bsz sc3 [] (dispatched @ [batch @ [r]]) (tot + 1) = Inl e"
          by (subst (asm) scanLoop.simps) simp
        from "1.IH"(1) [OF s [symmetric] eqTrueI [OF True] Inr [unfolded x] refl b this] show ?thesis .
      next
        case b: False
        with "1.prems" s True Inr x have
          "scanLoop bsz sc3 (batch @ [r]) dispatched (tot + 1) = Inl e"
          by (subst (asm) scanLoop.simps) simp
        from "1.IH"(2) [OF s [symmetric] eqTrueI [OF True] Inr [unfolded x] refl b this] show ?thesis .
      qed
    qed
  qed
qed

lemma parseAndDispatch_error_structural: "parseAndDispatch bsz ls = Inl e \<Longrightarrow> e \<noteq> WriteError"
  using scanLoop_error_structural [of bsz "NewScanner ls" "[]" "[]" 0 e]
  by (auto simp: parseAndDispatch_def Scanner_Err_def split: sum.splits if_splits)

lemma runBuffered_Inl_iff:
  "runBuffered bsz p ls wr (Inl e, wr') \<and> e \<noteq> WriteError
     \<longleftrightarrow> parseAndDispatch bsz ls = Inl e \<and> wr' = wr"
proof
  assume a: "runBuffered bsz p ls wr (Inl e, wr') \<and> e \<noteq> WriteError"
  then have "runBuffered bsz p ls wr (Inl e, wr')" by simp
  then show "parseAndDispatch bsz ls = Inl e \<and> wr' = wr"
  proof cases
    case structural
    then show ?thesis by simp
  next
    case (write_failed batches totalReads fin)
    from writeTrimmedReads_error [OF write_failed(4)] a show ?thesis by simp
  qed
next
  assume "parseAndDispatch bsz ls = Inl e \<and> wr' = wr"
  then show "runBuffered bsz p ls wr (Inl e, wr') \<and> e \<noteq> WriteError"
    using runBuffered.structural [of bsz ls e p wr] parseAndDispatch_error_structural [of bsz ls e]
    by simp
qed

lemma runStream_Inl_iff:
  "runStream bsz p ls wr (Inl e, wr') \<longleftrightarrow> parseAndDispatch bsz ls = Inl e \<and> wr' = wr"
proof
  assume "runStream bsz p ls wr (Inl e, wr')"
  then show "parseAndDispatch bsz ls = Inl e \<and> wr' = wr"
    by cases simp
next
  assume "parseAndDispatch bsz ls = Inl e \<and> wr' = wr"
  then show "runStream bsz p ls wr (Inl e, wr')"
    using runStream.structuralS [of bsz ls e p wr] by simp
qed

lemma parse_same_prefix:
  assumes sl: "short_lines ls" "short_lines ls'"
    and k: "k < length (records ls)"
    and good: "\<forall>j < k. wellformed (records ls ! j)"
    and bad: "\<not> wellformed (records ls ! k)"
    and same: "take (Suc k) (records ls') = take (Suc k) (records ls)"
  shows "parseAndDispatch bsz ls' = Inl (record_error (records ls ! k))"
    and "parseAndDispatch bsz ls = Inl (record_error (records ls ! k))"
proof -
  from same have "length (take (Suc k) (records ls')) = length (take (Suc k) (records ls))"
    by simp
  with k have k': "k < length (records ls')" by simp
  have eq: "records ls' ! j = records ls ! j" if "j \<le> k" for j
  proof -
    from that have "records ls' ! j = take (Suc k) (records ls') ! j" by simp
    also have "\<dots> = take (Suc k) (records ls) ! j" by (simp only: same)
    also have "\<dots> = records ls ! j" using that by simp
    finally show ?thesis .
  qed
  from k' good bad eq show "parseAndDispatch bsz ls' = Inl (record_error (records ls ! k))"
    unfolding parseAndDispatch_Inl_iff [OF sl(2)] by (intro exI [of _ k]) simp
  from k good bad show "parseAndDispatch bsz ls = Inl (record_error (records ls ! k))"
    unfolding parseAndDispatch_Inl_iff [OF sl(1)] by (intro exI [of _ k]) simp
qed

lemma records_two_bad:
  "records [''@a'', ''AC'', ''+'', ''FF'', ''b'', ''G'', ''+'', ''F'']
     = [(''@a'', ''AC'', ''+'', ''FF''), (''b'', ''G'', ''+'', ''F'')]"
  by (simp add: line_def dropCR_def)

lemma trim_test_read: "trim test_params test_read = Ok test_trimmed"
  using meanError_IIII
  by (simp add: trim_def test_params_def test_read_def test_trimmed_def
        trimRead_def go_slice_def strings_Index_def Let_def)

lemma trim_test_read2: "trim test_params test_read2 = Err ''adapter missing''"
  by (simp add: trim_def test_params_def test_read2_def
        trimRead_def go_slice_def strings_Index_def Let_def)

lemma scanLoop_end:
  "scanLoop bsz \<lparr>unread = [], token = t, buffered = None, tooLong = False\<rparr> batch dispatched tot = Inr (\<lparr>unread = [], token = [], buffered = None, tooLong = False\<rparr>, batch, dispatched, tot)"
  by (subst scanLoop.simps) (simp add: Scan_Nil)

lemma scanLoop_record:
  assumes "wellformed (dropCR h, dropCR a, dropCR b, dropCR c)"
    and "length h < MaxScanTokenSize" "length a < MaxScanTokenSize"
        "length b < MaxScanTokenSize" "length c < MaxScanTokenSize"
  shows "scanLoop bsz \<lparr>unread = h # a # b # c # rest, token = t, buffered = None, tooLong = False\<rparr> batch dispatched tot =
     (if length (batch @ [to_read (dropCR h, dropCR a, dropCR b, dropCR c)]) = bsz
      then scanLoop bsz \<lparr>unread = rest, token = dropCR c, buffered = None, tooLong = False\<rparr> []
             (dispatched @ [batch @ [to_read (dropCR h, dropCR a, dropCR b, dropCR c)]]) (tot + 1)
      else scanLoop bsz \<lparr>unread = rest, token = dropCR c, buffered = None, tooLong = False\<rparr>
             (batch @ [to_read (dropCR h, dropCR a, dropCR b, dropCR c)]) dispatched (tot + 1))"
  using assms by (subst scanLoop.simps) (simp add: Scan_Cons readRecord_rec line_def)

lemma parse_test_input: "parseAndDispatch bsz test_input = Inr ([[test_read]], 1)"
proof -
  have r: "records test_input = [(''@READ1'', ''ATCGATCC'', ''+'', ''IIIIIIII'')]"
    by (simp add: test_input_def line_def dropCR_def)
  have w: "wellformed (dropCR ''@READ1'', dropCR ''ATCGATCC'', dropCR ''+'', dropCR ''IIIIIIII'')"
    by (simp add: wellformed_def dropCR_def)
  have "scanLoop bsz (NewScanner test_input) [] [] 0
          = (if 1 = bsz then Inr (\<lparr>unread = [], token = [], buffered = None, tooLong = False\<rparr>, [], [[test_read]], 1)
             else Inr (\<lparr>unread = [], token = [], buffered = None, tooLong = False\<rparr>, [test_read], [], 1))"
    unfolding test_input_def NewScanner_def
    by (simp add: scanLoop_record [OF w] scanLoop_end MaxScanTokenSize_def)
       (simp add: to_read_def test_read_def dropCR_def)
  then show ?thesis by (simp add: parseAndDispatch_def Scanner_Err_def)
qed

lemma steps_test_buffered:
  "rtranclp (step test_params) (initBuffered [[test_read]])
     \<lparr>workers = [[]], adapterMissingCount = 0, tooShortCount = 0, lowQualityCount = 0,
      trimmedReads = [test_trimmed]\<rparr>"
proof -
  have "processBatch test_params [test_read] (initBuffered [[test_read]])
          = Some \<lparr>workers = [[test_read]], adapterMissingCount = 0, tooShortCount = 0,
                  lowQualityCount = 0, trimmedReads = [test_trimmed]\<rparr>"
    by (simp add: processOne_def trim_test_read initBuffered_def)
  from processBatch_steps [OF this, of 0] show ?thesis
    by (simp add: initBuffered_def)
qed

lemma run_test_buffered:
  "4 \<le> budget wr \<Longrightarrow>
   ProcessReadsFast test_params test_input wr
     (Inr \<lparr>total = 1, trimmed = 1, adapterMissing = 0, tooShort = 0, lowQuality = 0\<rparr>,
      \<lparr>written = written wr @ fastqText test_trimmed, budget = budget wr - 4\<rparr>)"
proof -
  assume b: "4 \<le> budget wr"
  let ?fin = "\<lparr>workers = [[]], adapterMissingCount = 0, tooShortCount = 0, lowQualityCount = 0,
      trimmedReads = [test_trimmed]\<rparr>"
  have j: "joined ?fin" by (simp add: joined_def)
  have w: "writeTrimmedReads (trimmedReads ?fin) wr
             = (None, \<lparr>written = written wr @ fastqText test_trimmed, budget = budget wr - 4\<rparr>)"
    using writeTrimmedReads_ok [of "[test_trimmed]" wr] b by simp
  from runBuffered.completed [OF parse_test_input steps_test_buffered j w]
  show ?thesis by (simp add: ProcessReadsFast_def)
qed

lemma run_test_buffered_fails:
  "ProcessReadsFast test_params test_input \<lparr>written = [], budget = 0\<rparr>
     (Inl WriteError, \<lparr>written = [], budget = 0\<rparr>)"
proof -
  let ?fin = "\<lparr>workers = [[]], adapterMissingCount = 0, tooShortCount = 0, lowQualityCount = 0,
      trimmedReads = [test_trimmed]\<rparr>"
  have j: "joined ?fin" by (simp add: joined_def)
  have w: "writeTrimmedReads (trimmedReads ?fin) \<lparr>written = [], budget = 0\<rparr>
             = (Some WriteError, \<lparr>written = [], budget = 0\<rparr>)"
    by (simp add: WriteString_def)
  from runBuffered.write_failed [OF parse_test_input steps_test_buffered j w]
  show ?thesis by (simp add: ProcessReadsFast_def)
qed

lemma steps_test_stream:
  "rtranclp (stepS test_params) (initStream [[test_read]] wr)
     \<lparr>workers = [[]], adapterMissingCount = 0, tooShortCount = 0, lowQualityCount = 0,
      resultsChan = [], outWriter = writeResult wr test_trimmed, totalTrimmedReads = 1\<rparr>"
proof -
  let ?s0 = "initStream [[test_read]] wr"
  let ?s1 = "\<lparr>workers = [[]], adapterMissingCount = 0, tooShortCount = 0, lowQualityCount = 0,
      resultsChan = [test_trimmed], outWriter = wr, totalTrimmedReads = 0\<rparr>"
  let ?s2 = "\<lparr>workers = [[]], adapterMissingCount = 0, tooShortCount = 0, lowQualityCount = 0,
      resultsChan = [], outWriter = writeResult wr test_trimmed, totalTrimmedReads = 1\<rparr>"
  have a: "stepS test_params ?s0 ?s1"
    using stepS.send [of 0 ?s0 test_read "[]" test_params test_trimmed]
    by (simp add: initStream_def trim_test_read chanCapacity_def)
  have b: "stepS test_params ?s1 ?s2"
    using stepS.receive [of ?s1 test_trimmed "[]" test_params]
    by simp
  from a have "rtranclp (stepS test_params) ?s0 ?s1" by (rule r_into_rtranclp)
  from this b show ?thesis by (rule rtranclp.rtrancl_into_rtrancl)
qed

lemma run_test_stream:
  "ProcessReadsFast_stream test_params test_input wr
     (Inr \<lparr>total = 1, trimmed = 1, adapterMissing = 0, tooShort = 0, lowQuality = 0\<rparr>,
      writeResult wr test_trimmed)"
proof -
  let ?fin = "\<lparr>workers = [[]], adapterMissingCount = 0, tooShortCount = 0, lowQualityCount = 0,
      resultsChan = [], outWriter = writeResult wr test_trimmed, totalTrimmedReads = 1\<rparr>"
  have j: "joined ?fin" by (simp add: joined_def)
  have c: "resultsChan ?fin = []" by simp
  from runStream.completedS [OF parse_test_input steps_test_stream j c]
  show ?thesis by (simp add: ProcessReadsFast_stream_def)
qed

lemma processOne_exactly_one:
  assumes "processOne p r st = Some st'"
  shows "(\<exists>t. trimmedReads st' = trimmedReads st @ [t] \<and>
            adapterMissingCount st' = adapterMissingCount st \<and>
            tooShortCount st' = tooShortCount st \<and> lowQualityCount st' = lowQualityCount st)
       \<or> (trimmedReads st' = trimmedReads st \<and>
            adapterMissingCount st' = adapterMissingCount st + 1 \<and>
            tooShortCount st' = tooShortCount st \<and> lowQualityCount st' = lowQualityCount st)
       \<or> (trimmedReads st' = trimmedReads st \<and>
            adapterMissingCount st' = adapterMissingCount st \<and>
            tooShortCount st' = tooShortCount st + 1 \<and> lowQualityCount st' = lowQualityCount st)
       \<or> (trimmedReads st' = trimmedReads st \<and>
            adapterMissingCount st' = adapterMissingCount st \<and>
            tooShortCount st' = tooShortCount st \<and> lowQualityCount st' = lowQualityCount st + 1)"
proof (cases "trim p r")
  case (Ok t)
  with assms show ?thesis by (auto simp: processOne_def)
next
  case (Err msg)
  with assms have "st' = countRejection msg st" by (simp add: processOne_def)
  with trim_Err_cases [OF Err] show ?thesis
    by (auto simp: countRejection_fields)
next
  case Panic
  with assms show ?thesis by (simp add: processOne_def)
qed

lemma runBuffered_stats:
  assumes "runBuffered bsz p ls wr (Inr stats, wr')"
  shows "total stats = trimmed stats + adapterMissing stats + tooShort stats + lowQuality stats"
    and "total stats = word_of_nat (length (records ls))"
    and "trimmed stats = word_of_nat (length (survivors p (map to_read (records ls))))"
    and "adapterMissing stats = word_of_nat (rejected p ''adapter missing'' (map to_read (records ls)))"
    and "tooShort stats = word_of_nat (rejected p ''too short'' (map to_read (records ls)))"
    and "lowQuality stats = word_of_nat (rejected p ''low quality'' (map to_read (records ls)))"
    and "\<exists>rs. mset rs = mset (survivors p (map to_read (records ls))) \<and>
              written wr' = written wr @ concat (map fastqText rs)"
proof -
  from assms obtain batches totalReads fin where
    parse: "parseAndDispatch bsz ls = Inr (batches, totalReads)"
    and steps: "rtranclp (step p) (initBuffered batches) fin" and j: "joined fin"
    and w: "writeTrimmedReads (trimmedReads fin) wr = (None, wr')"
    and stats: "stats = \<lparr>total = totalReads, trimmed = word_of_nat (length (trimmedReads fin)),
             adapterMissing = adapterMissingCount fin, tooShort = tooShortCount fin,
             lowQuality = lowQualityCount fin\<rparr>"
    by cases auto
  note pr = parseAndDispatch_Inr [OF parse]
  note fi = buffered_final [OF steps j, unfolded pr(1)]
  have len: "length (trimmedReads fin) = length (survivors p (map to_read (records ls)))"
    using fi(1) by (metis size_mset)
  have wr': "written wr' = written wr @ concat (map fastqText (trimmedReads fin))"
  proof (cases "4 * length (trimmedReads fin) \<le> budget wr")
    case True
    from writeTrimmedReads_ok [OF True] w show ?thesis by auto
  next
    case False
    then have "budget wr < 4 * length (trimmedReads fin)" by simp
    from writeTrimmedReads_fails [OF this] w show ?thesis by simp
  qed
  show "total stats = trimmed stats + adapterMissing stats + tooShort stats + lowQuality stats"
    using fi(5) pr(2) by (simp add: stats)
  show "total stats = word_of_nat (length (records ls))"
    using pr(2) by (simp add: stats)
  show "trimmed stats = word_of_nat (length (survivors p (map to_read (records ls))))"
    using len by (simp add: stats)
  show "adapterMissing stats = word_of_nat (rejected p ''adapter missing'' (map to_read (records ls)))"
    using fi(2) by (simp add: stats)
  show "tooShort stats = word_of_nat (rejected p ''too short'' (map to_read (records ls)))"
    using fi(3) by (simp add: stats)
  show "lowQuality stats = word_of_nat (rejected p ''low quality'' (map to_read (records ls)))"
    using fi(4) by (simp add: stats)
  show "\<exists>rs. mset rs = mset (survivors p (map to_read (records ls))) \<and>
              written wr' = written wr @ concat (map fastqText rs)"
    using fi(1) wr' by blast
qed

lemma runStream_stats:
  assumes "runStream bsz p ls wr (Inr stats, wr')"
  shows "total stats = trimmed stats + adapterMissing stats + tooShort stats + lowQuality stats"
    and "total stats = word_of_nat (length (records ls))"
    and "trimmed stats = word_of_nat (length (survivors p (map to_read (records ls))))"
    and "adapterMissing stats = word_of_nat (rejected p ''adapter missing'' (map to_read (records ls)))"
    and "tooShort stats = word_of_nat (rejected p ''too short'' (map to_read (records ls)))"
    and "lowQuality stats = word_of_nat (rejected p ''low quality'' (map to_read (records ls)))"
    and "\<exists>rs. mset rs = mset (survivors p (map to_read (records ls))) \<and>
              wr' = foldl writeResult wr rs"
proof -
  from assms obtain batches totalReads fin where
    parse: "parseAndDispatch bsz ls = Inr (batches, totalReads)"
    and steps: "rtranclp (stepS p) (initStream batches wr) fin" and j: "joined fin"
    and c: "resultsChan fin = []" and w: "wr' = outWriter fin"
    and stats: "stats = \<lparr>total = totalReads, trimmed = totalTrimmedReads fin,
             adapterMissing = adapterMissingCount fin, tooShort = tooShortCount fin,
             lowQuality = lowQualityCount fin\<rparr>"
    by cases auto
  note pr = parseAndDispatch_Inr [OF parse]
  note fi = stream_final [OF steps j c, unfolded pr(1)]
  show "total stats = trimmed stats + adapterMissing stats + tooShort stats + lowQuality stats"
    using fi(5) pr(2) by (simp add: stats)
  show "total stats = word_of_nat (length (records ls))"
    using pr(2) by (simp add: stats)
  show "trimmed stats = word_of_nat (length (survivors p (map to_read (records ls))))"
    using fi(4) by (simp add: stats)
  show "adapterMissing stats = word_of_nat (rejected p ''adapter missing'' (map to_read (records ls)))"
    using fi(1) by (simp add: stats)
  show "tooShort stats = word_of_nat (rejected p ''too short'' (map to_read (records ls)))"
    using fi(2) by (simp add: stats)
  show "lowQuality stats = word_of_nat (rejected p ''low quality'' (map to_read (records ls)))"
    using fi(3) by (simp add: stats)
  show "\<exists>rs. mset rs = mset (survivors p (map to_read (records ls))) \<and>
              wr' = foldl writeResult wr rs"
    using fi(6) w by blast
qed

lemma Statistics_eqI:
  fixes s1 s2 :: Statistics
  assumes "total s1 = total s2" "trimmed s1 = trimmed s2" "adapterMissing s1 = adapterMissing s2"
    "tooShort s1 = tooShort s2" "lowQuality s1 = lowQuality s2"
  shows "s1 = s2"
  using assms by (cases s1; cases s2) simp

lemma steps_one_batch:
  "rtranclp (step test_params) (initBuffered [[test_read, test_read2]])
     \<lparr>workers = [[]], adapterMissingCount = 1, tooShortCount = 0, lowQualityCount = 0,
      trimmedReads = [test_trimmed]\<rparr>"
proof -
  have "processBatch test_params [test_read, test_read2] (initBuffered [[test_read, test_read2]])
          = Some \<lparr>workers = [[test_read, test_read2]], adapterMissingCount = 1, tooShortCount = 0,
                  lowQualityCount = 0, trimmedReads = [test_trimmed]\<rparr>"
    by (simp add: processOne_def trim_test_read trim_test_read2 initBuffered_def countRejection_def)
  from processBatch_steps [OF this, of 0] show ?thesis
    by (simp add: initBuffered_def)
qed

lemma steps_two_batches:
  "rtranclp (step test_params) (initBuffered [[test_read], [test_read2]])
     \<lparr>workers = [[], []], adapterMissingCount = 1, tooShortCount = 0, lowQualityCount = 0,
      trimmedReads = [test_trimmed]\<rparr>"
proof -
  let ?mid = "\<lparr>workers = [[test_read], []], adapterMissingCount = 1, tooShortCount = 0,
                lowQualityCount = 0, trimmedReads = []\<rparr>"
  have "processBatch test_params [test_read2] (initBuffered [[test_read], [test_read2]])
          = Some \<lparr>workers = [[test_read], [test_read2]], adapterMissingCount = 1, tooShortCount = 0,
                  lowQualityCount = 0, trimmedReads = []\<rparr>"
    by (simp add: processOne_def trim_test_read2 initBuffered_def countRejection_def)
  from processBatch_steps [OF this, of 1]
  have a: "rtranclp (step test_params) (initBuffered [[test_read], [test_read2]]) ?mid"
    by (simp add: initBuffered_def)
  have "processBatch test_params [test_read] ?mid
          = Some \<lparr>workers = [[test_read], []], adapterMissingCount = 1, tooShortCount = 0,
                  lowQualityCount = 0, trimmedReads = [test_trimmed]\<rparr>"
    by (simp add: processOne_def trim_test_read)
  from processBatch_steps [OF this, of 0]
  have b: "rtranclp (step test_params) ?mid
     \<lparr>workers = [[], []], adapterMissingCount = 1, tooShortCount = 0, lowQualityCount = 0,
      trimmedReads = [test_trimmed]\<rparr>"
    by simp
  from a b show ?thesis by (rule rtranclp_trans)
qed

lemma parse_test_input2_one:
  "parseAndDispatch 1 test_input2 = Inr ([[test_read], [test_read2]], 2)"
proof -
  have w1: "wellformed (dropCR ''@READ1'', dropCR ''ATCGATCC'', dropCR ''+'', dropCR ''IIIIIIII'')"
    and w2: "wellformed (dropCR ''@READ2'', dropCR ''ATCGATCG'', dropCR ''+'', dropCR ''IIIIIIII'')"
    by (simp_all add: wellformed_def dropCR_def)
  show ?thesis
    unfolding parseAndDispatch_def test_input2_def NewScanner_def
    by (simp add: scanLoop_record [OF w1] scanLoop_record [OF w2] scanLoop_end
          MaxScanTokenSize_def Scanner_Err_def)
       (simp add: to_read_def test_read_def test_read2_def dropCR_def)
qed

lemma parse_test_input2_two:
  "parseAndDispatch 2 test_input2 = Inr ([[test_read, test_read2]], 2)"
proof -
  have w1: "wellformed (dropCR ''@READ1'', dropCR ''ATCGATCC'', dropCR ''+'', dropCR ''IIIIIIII'')"
    and w2: "wellformed (dropCR ''@READ2'', dropCR ''ATCGATCG'', dropCR ''+'', dropCR ''IIIIIIII'')"
    by (simp_all add: wellformed_def dropCR_def)
  show ?thesis
    unfolding parseAndDispatch_def test_input2_def NewScanner_def
    by (simp add: scanLoop_record [OF w1] scanLoop_record [OF w2] scanLoop_end
          MaxScanTokenSize_def Scanner_Err_def)
       (simp add: to_read_def test_read_def test_read2_def dropCR_def)
qed

lemma stepsS_one_batch:
  "rtranclp (stepS test_params) (initStream [[test_read, test_read2]] wr)
     \<lparr>workers = [[]], adapterMissingCount = 1, tooShortCount = 0, lowQualityCount = 0,
      resultsChan = [], outWriter = writeResult wr test_trimmed, totalTrimmedReads = 1\<rparr>"
proof -
  let ?s0 = "initStream [[test_read, test_read2]] wr"
  let ?s1 = "\<lparr>workers = [[test_read2]], adapterMissingCount = 0, tooShortCount = 0,
      lowQualityCount = 0, resultsChan = [test_trimmed], outWriter = wr, totalTrimmedReads = 0\<rparr>"
  let ?s2 = "\<lparr>workers = [[]], adapterMissingCount = 1, tooShortCount = 0,
      lowQualityCount = 0, resultsChan = [test_trimmed], outWriter = wr, totalTrimmedReads = 0\<rparr>"
  let ?s3 = "\<lparr>workers = [[]], adapterMissingCount = 1, tooShortCount = 0, lowQualityCount = 0,
      resultsChan = [], outWriter = writeResult wr test_trimmed, totalTrimmedReads = 1\<rparr>"
  have a: "stepS test_params ?s0 ?s1"
    using stepS.send [of 0 ?s0 test_read "[test_read2]" test_params test_trimmed]
    by (simp add: initStream_def trim_test_read chanCapacity_def)
  have b: "stepS test_params ?s1 ?s2"
    using stepS.reject [of 0 ?s1 test_read2 "[]" test_params "''adapter missing''"]
    by (simp add: trim_test_read2 countRejection_def)
  have c: "stepS test_params ?s2 ?s3"
    using stepS.receive [of ?s2 test_trimmed "[]" test_params]
    by simp
  from a have "rtranclp (stepS test_params) ?s0 ?s1" by (rule r_into_rtranclp)
  from this b have "rtranclp (stepS test_params) ?s0 ?s2" by (rule rtranclp.rtrancl_into_rtrancl)
  from this c show ?thesis by (rule rtranclp.rtrancl_into_rtrancl)
qed

lemma stepsS_two_batches:
  "rtranclp (stepS test_params) (initStream [[test_read], [test_read2]] wr)
     \<lparr>workers = [[], []], adapterMissingCount = 1, tooShortCount = 0, lowQualityCount = 0,
      resultsChan = [], outWriter = writeResult wr test_trimmed, totalTrimmedReads = 1\<rparr>"
proof -
  let ?s0 = "initStream [[test_read], [test_read2]] wr"
  let ?s1 = "\<lparr>workers = [[test_read], []], adapterMissingCount = 1, tooShortCount = 0,
      lowQualityCount = 0, resultsChan = [], outWriter = wr, totalTrimmedReads = 0\<rparr>"
  let ?s2 = "\<lparr>workers = [[], []], adapterMissingCount = 1, tooShortCount = 0,
      lowQualityCount = 0, resultsChan = [test_trimmed], outWriter = wr, totalTrimmedReads = 0\<rparr>"
  let ?s3 = "\<lparr>workers = [[], []], adapterMissingCount = 1, tooShortCount = 0, lowQualityCount = 0,
      resultsChan = [], outWriter = writeResult wr test_trimmed, totalTrimmedReads = 1\<rparr>"
  have a: "stepS test_params ?s0 ?s1"
    using stepS.reject [of 1 ?s0 test_read2 "[]" test_params "''adapter missing''"]
    by (simp add: initStream_def trim_test_read2 countRejection_def)
  have b: "stepS test_params ?s1 ?s2"
    using stepS.send [of 0 ?s1 test_read "[]" test_params test_trimmed]
    by (simp add: trim_test_read chanCapacity_def)
  have c: "stepS test_params ?s2 ?s3"
    using stepS.receive [of ?s2 test_trimmed "[]" test_params]
    by simp
  from a have "rtranclp (stepS test_params) ?s0 ?s1" by (rule r_into_rtranclp)
  from this b have "rtranclp (stepS test_params) ?s0 ?s2" by (rule rtranclp.rtrancl_into_rtrancl)
  from this c show ?thesis by (rule rtranclp.rtrancl_into_rtrancl)
qed

lemma run2_buffered_one:
  "runBuffered 1 test_params test_input2 \<lparr>written = [], budget = 4\<rparr>
     (Inr \<lparr>total = 2, trimmed = 1, adapterMissing = 1, tooShort = 0, lowQuality = 0\<rparr>,
      \<lparr>written = fastqText test_trimmed, budget = 0\<rparr>)"
proof -
  let ?fin = "\<lparr>workers = [[], []], adapterMissingCount = 1, tooShortCount = 0, lowQualityCount = 0,
      trimmedReads = [test_trimmed]\<rparr>"
  have j: "joined ?fin" by (simp add: joined_def)
  have w: "writeTrimmedReads (trimmedReads ?fin) \<lparr>written = [], budget = 4\<rparr>
             = (None, \<lparr>written = fastqText test_trimmed, budget = 0\<rparr>)"
    using writeTrimmedReads_ok [of "[test_trimmed]" "\<lparr>written = [], budget = 4\<rparr>"] by simp
  from runBuffered.completed [OF parse_test_input2_one steps_two_batches j w]
  show ?thesis by simp
qed

lemma run2_buffered_two:
  "runBuffered 2 test_params test_input2 \<lparr>written = [], budget = 4\<rparr>
     (Inr \<lparr>total = 2, trimmed = 1, adapterMissing = 1, tooShort = 0, lowQuality = 0\<rparr>,
      \<lparr>written = fastqText test_trimmed, budget = 0\<rparr>)"
proof -
  let ?fin = "\<lparr>workers = [[]], adapterMissingCount = 1, tooShortCount = 0, lowQualityCount = 0,
      trimmedReads = [test_trimmed]\<rparr>"
  have j: "joined ?fin" by (simp add: joined_def)
  have w: "writeTrimmedReads (trimmedReads ?fin) \<lparr>written = [], budget = 4\<rparr>
             = (None, \<lparr>written = fastqText test_trimmed, budget = 0\<rparr>)"
    using writeTrimmedReads_ok [of "[test_trimmed]" "\<lparr>written = [], budget = 4\<rparr>"] by simp
  from runBuffered.completed [OF parse_test_input2_two steps_one_batch j w]
  show ?thesis by simp
qed

lemma run2_stream_one:
  "runStream 1 test_params test_input2 \<lparr>written = [], budget = 4\<rparr>
     (Inr \<lparr>total = 2, trimmed = 1, adapterMissing = 1, tooShort = 0, lowQuality = 0\<rparr>,
      \<lparr>written = fastqText test_trimmed, budget = 0\<rparr>)"
proof -
  let ?fin = "\<lparr>workers = [[], []], adapterMissingCount = 1, tooShortCount = 0, lowQualityCount = 0,
      resultsChan = [], outWriter = writeResult \<lparr>written = [], budget = 4\<rparr> test_trimmed,
      totalTrimmedReads = 1\<rparr>"
  have j: "joined ?fin" by (simp add: joined_def)
  have c: "resultsChan ?fin = []" by simp
  from runStream.completedS [OF parse_test_input2_one stepsS_two_batches j c]
  show ?thesis by (simp add: writeResult_ok)
qed

lemma run2_stream_two:
  "runStream 2 test_params test_input2 \<lparr>written = [], budget = 4\<rparr>
     (Inr \<lparr>total = 2, trimmed = 1, adapterMissing = 1, tooShort = 0, lowQuality = 0\<rparr>,
      \<lparr>written = fastqText test_trimmed, budget = 0\<rparr>)"
proof -
  let ?fin = "\<lparr>workers = [[]], adapterMissingCount = 1, tooShortCount = 0, lowQualityCount = 0,
      resultsChan = [], outWriter = writeResult \<lparr>written = [], budget = 4\<rparr> test_trimmed,
      totalTrimmedReads = 1\<rparr>"
  have j: "joined ?fin" by (simp add: joined_def)
  have c: "resultsChan ?fin = []" by simp
  from runStream.completedS [OF parse_test_input2_two stepsS_one_batch j c]
  show ?thesis by (simp add: writeResult_ok)
qed

lemma processOne_test:
  "processOne test_params test_read2 (initBuffered [[test_read2]])
     = Some \<lparr>workers = [[test_read2]], adapterMissingCount = 1, tooShortCount = 0,
             lowQualityCount = 0, trimmedReads = []\<rparr>"
  by (simp add: processOne_def trim_test_read2 initBuffered_def countRejection_def)

lemma set_concat_update:
  assumes "k < length ws" "ws ! k = r # rest"
  shows "set (concat ws) = insert r (set (concat (ws[k := rest])))"
proof -
  from mset_concat_update [OF assms]
  have "set_mset (mset (concat ws)) = set_mset (add_mset r (mset (concat (ws[k := rest]))))"
    by simp
  then show ?thesis by simp
qed

lemma pending_nonempty_worker:
  assumes "pending st \<noteq> []"
  obtains k r rest where "k < length (workers st)" "workers st ! k = r # rest"
proof -
  from assms obtain w where "w \<in> set (workers st)" "w \<noteq> []"
    by (auto simp: pending_def)
  then obtain k where k: "k < length (workers st)" "workers st ! k = w"
    by (auto simp: in_set_conv_nth)
  with \<open>w \<noteq> []\<close> obtain r rest where "workers st ! k = r # rest"
    by (cases w) auto
  with k(1) show ?thesis by (rule that)
qed

lemma pending_empty_joined: "pending st = [] \<Longrightarrow> joined st"
  by (auto simp: pending_def joined_def list_all_iff)

text \<open>
  When no pending read makes \<open>trimRead\<close> panic, the goroutines of the buffering
  pipeline can always run to the end.
\<close>

lemma buffered_finishes:
  assumes "\<forall>r \<in> set (pending st). trim p r \<noteq> Panic"
  shows "\<exists>fin. rtranclp (step p) st fin \<and> joined fin"
  using assms
proof (induction n \<equiv> "length (pending st)" arbitrary: st)
  case 0
  then have "joined st" by (simp add: pending_empty_joined)
  then show ?case by blast
next
  case (Suc n)
  then have "pending st \<noteq> []" by auto
  then obtain k r rest where k: "k < length (workers st)" "workers st ! k = r # rest"
    by (rule pending_nonempty_worker)
  from set_concat_update [OF k] have s: "set (pending st) = insert r (set (concat ((workers st)[k := rest])))"
    by (simp add: pending_def)
  with Suc.prems have "trim p r \<noteq> Panic" by simp
  then obtain st1 where one: "processOne p r st = Some st1"
    by (cases "trim p r") (simp_all add: processOne_def)
  let ?st2 = "st1\<lparr>workers := (workers st)[k := rest]\<rparr>"
  from k one have st: "step p st ?st2" by (rule step.iteration)
  have p2: "pending ?st2 = concat ((workers st)[k := rest])" by (simp add: pending_def)
  from length_concat_update [OF k] Suc.hyps(2) have "n = length (pending ?st2)"
    by (simp add: pending_def)
  moreover from Suc.prems s p2 have "\<forall>r \<in> set (pending ?st2). trim p r \<noteq> Panic" by simp
  ultimately obtain fin where "rtranclp (step p) ?st2 fin" "joined fin"
    using Suc.hyps(1) by blast
  with st show ?case by (meson converse_rtranclp_into_rtranclp)
qed

lemma step_no_panic:
  assumes "step p st st'" and "\<forall>r \<in> set (pending st'). trim p r \<noteq> Panic"
  shows "\<forall>r \<in> set (pending st). trim p r \<noteq> Panic"
proof -
  from assms(1) obtain r where
    m: "mset (pending st) = add_mset r (mset (pending st'))" and np: "trim p r \<noteq> Panic"
    by (rule step_effect)
  from m have "set (pending st) = insert r (set (pending st'))"
    by (metis set_mset_add_mset_insert set_mset_mset)
  with np assms(2) show ?thesis by simp
qed

lemma buffered_finished_no_panic:
  assumes "rtranclp (step p) st fin" and "joined fin"
  shows "\<forall>r \<in> set (pending st). trim p r \<noteq> Panic"
  using assms
proof (induction rule: converse_rtranclp_induct)
  case base
  then show ?case by (simp add: joined_pending)
next
  case (step y z)
  from step.IH [OF step.prems] show ?case by (rule step_no_panic [OF step.hyps(1)])
qed

text \<open>
  The same for the streaming pipeline: the writer goroutine empties the channel, so a
  sender is never blocked for good.
\<close>

lemma stream_finishes:
  assumes "\<forall>r \<in> set (pending st). trim p r \<noteq> Panic"
  shows "\<exists>fin. rtranclp (stepS p) st fin \<and> joined fin \<and> resultsChan fin = []"
  using assms
proof (induction n \<equiv> "2 * length (pending st) + length (resultsChan st)" arbitrary: st rule: less_induct)
  case less
  show ?case
  proof (cases "resultsChan st")
    case (Cons t ch)
    let ?st' = "st\<lparr>resultsChan := ch, outWriter := writeResult (outWriter st) t,
                    totalTrimmedReads := totalTrimmedReads st + 1\<rparr>"
    from Cons have s: "stepS p st ?st'" by (rule stepS.receive)
    have p': "pending ?st' = pending st" by (simp add: pending_def)
    have "2 * length (pending ?st') + length (resultsChan ?st')
            < 2 * length (pending st) + length (resultsChan st)"
      by (simp add: p' Cons)
    moreover from less.prems p' have "\<forall>r \<in> set (pending ?st'). trim p r \<noteq> Panic" by simp
    ultimately obtain fin where "rtranclp (stepS p) ?st' fin" "joined fin" "resultsChan fin = []"
      using less.hyps by blast
    with s show ?thesis by (meson converse_rtranclp_into_rtranclp)
  next
    case Nil
    show ?thesis
    proof (cases "pending st = []")
      case True
      then have "joined st" by (rule pending_empty_joined)
      with Nil show ?thesis by blast
    next
      case False
      then obtain k r rest where k: "k < length (workers st)" "workers st ! k = r # rest"
        by (rule pending_nonempty_worker)
      from set_concat_update [OF k]
      have s: "set (pending st) = insert r (set (concat ((workers st)[k := rest])))"
        by (simp add: pending_def)
      with less.prems have np: "trim p r \<noteq> Panic" by simp
      from length_concat_update [OF k]
      have l: "length (pending st) = Suc (length (concat ((workers st)[k := rest])))"
        by (simp add: pending_def)
      show ?thesis
      proof (cases "trim p r")
        case (Ok t)
        let ?st' = "st\<lparr>workers := (workers st)[k := rest], resultsChan := resultsChan st @ [t]\<rparr>"
        from k Ok Nil have st: "stepS p st ?st'"
          by (intro stepS.send) (simp_all add: chanCapacity_def)
        have p': "pending ?st' = concat ((workers st)[k := rest])" by (simp add: pending_def)
        have "2 * length (pending ?st') + length (resultsChan ?st')
                < 2 * length (pending st) + length (resultsChan st)"
          using p' l Nil by simp
        moreover from less.prems s p' have "\<forall>r \<in> set (pending ?st'). trim p r \<noteq> Panic" by simp
        ultimately obtain fin where "rtranclp (stepS p) ?st' fin" "joined fin" "resultsChan fin = []"
          using less.hyps by blast
        with st show ?thesis by (meson converse_rtranclp_into_rtranclp)
      next
        case (Err msg)
        let ?st' = "countRejection msg (st\<lparr>workers := (workers st)[k := rest]\<rparr>)"
        from k Err have st: "stepS p st ?st'" by (rule stepS.reject)
        have p': "pending ?st' = concat ((workers st)[k := rest])"
          by (simp add: pending_def countRejection_fields)
        have "2 * length (pending ?st') + length (resultsChan ?st')
                < 2 * length (pending st) + length (resultsChan st)"
          using p' l Nil by simp
        moreover from less.prems s p' have "\<forall>r \<in> set (pending ?st'). trim p r \<noteq> Panic" by simp
        ultimately obtain fin where "rtranclp (stepS p) ?st' fin" "joined fin" "resultsChan fin = []"
          using less.hyps by blast
        with st show ?thesis by (meson converse_rtranclp_into_rtranclp)
      next
        case Panic
        with np show ?thesis by simp
      qed
    qed
  qed
qed

lemma stepS_no_panic:
  assumes "stepS p st st'" and "\<forall>r \<in> set (pending st'). trim p r \<noteq> Panic"
  shows "\<forall>r \<in> set (pending st). trim p r \<noteq> Panic"
  using assms(1)
proof cases
  case (reject k r rest msg)
  from set_concat_update [OF reject(2,3)] reject(1,4) assms(2) show ?thesis
    by (simp add: pending_def countRejection_fields)
next
  case (send k r rest t)
  from set_concat_update [OF send(2,3)] send(1,4) assms(2) show ?thesis
    by (simp add: pending_def)
next
  case (receive t ch)
  with assms(2) show ?thesis by (simp add: pending_def)
qed

lemma stream_finished_no_panic:
  assumes "rtranclp (stepS p) st fin" and "joined fin"
  shows "\<forall>r \<in> set (pending st). trim p r \<noteq> Panic"
  using assms
proof (induction rule: converse_rtranclp_induct)
  case base
  then show ?case by (simp add: joined_pending)
next
  case (step y z)
  from step.IH [OF step.prems] show ?case by (rule stepS_no_panic [OF step.hyps(1)])
qed

lemma buffered_finishes_iff:
  "(\<exists>fin. rtranclp (step p) (initBuffered bs) fin \<and> joined fin)
     \<longleftrightarrow> (\<forall>r \<in> set (concat bs). trim p r \<noteq> Panic)"
proof -
  have p0: "pending (initBuffered bs) = concat bs"
    by (simp add: pending_def initBuffered_def)
  show ?thesis
    using buffered_finishes [of "initBuffered bs" p]
      buffered_finished_no_panic [of p "initBuffered bs"]
    unfolding p0 by blast
qed

lemma stream_finishes_iff:
  "(\<exists>fin. rtranclp (stepS p) (initStream bs wr) fin \<and> joined fin \<and> resultsChan fin = [])
     \<longleftrightarrow> (\<forall>r \<in> set (concat bs). trim p r \<noteq> Panic)"
proof -
  have p0: "pending (initStream bs wr) = concat bs"
    by (simp add: pending_def initStream_def)
  show ?thesis
    using stream_finishes [of "initStream bs wr" p]
      stream_finished_no_panic [of p "initStream bs wr"]
    unfolding p0 by blast
qed

lemma parseAndDispatch_wellformed:
  assumes "short_lines ls" "list_all wellformed (records ls)"
  obtains batches tot where "parseAndDispatch bsz ls = Inr (batches, tot)"
proof (cases "parseAndDispatch bsz ls")
  case (Inl e)
  then have "\<not> list_all wellformed (records ls)"
    using first_bad_iff [of "records ls" wellformed]
    unfolding parseAndDispatch_Inl_iff [OF assms(1)] by blast
  with assms show ?thesis by simp
next
  case (Inr x)
  then show ?thesis by (cases x) (auto intro: that)
qed

text \<open>
  Runs that return exist: on a well-formed input of short lines on which \<open>trimRead\<close> does not panic,
  the buffering version returns the statistics when the writes succeed, and the
  streaming version returns them in any case.
\<close>

lemma runBuffered_returns:
  assumes sl: "short_lines ls" and wf: "list_all wellformed (records ls)"
    and np: "\<forall>r \<in> set (map to_read (records ls)). trim p r \<noteq> Panic"
    and b: "4 * length (survivors p (map to_read (records ls))) \<le> budget wr"
  shows "\<exists>stats wr'. runBuffered bsz p ls wr (Inr stats, wr')"
proof -
  from sl wf obtain batches tot where parse: "parseAndDispatch bsz ls = Inr (batches, tot)"
    by (rule parseAndDispatch_wellformed)
  note pr = parseAndDispatch_Inr [OF parse]
  from np pr(1) have "\<forall>r \<in> set (concat batches). trim p r \<noteq> Panic" by simp
  then obtain fin where fin: "rtranclp (step p) (initBuffered batches) fin" "joined fin"
    using buffered_finishes_iff [of p batches] by blast
  from buffered_final(1) [OF fin] pr(1)
  have "length (trimmedReads fin) = length (survivors p (map to_read (records ls)))"
    by (metis size_mset)
  with b have "4 * length (trimmedReads fin) \<le> budget wr" by simp
  from writeTrimmedReads_ok [OF this] runBuffered.completed [OF parse fin]
  show ?thesis by blast
qed

lemma runStream_returns:
  assumes sl: "short_lines ls" and wf: "list_all wellformed (records ls)"
    and np: "\<forall>r \<in> set (map to_read (records ls)). trim p r \<noteq> Panic"
  shows "\<exists>stats wr'. runStream bsz p ls wr (Inr stats, wr')"
proof -
  from sl wf obtain batches tot where parse: "parseAndDispatch bsz ls = Inr (batches, tot)"
    by (rule parseAndDispatch_wellformed)
  note pr = parseAndDispatch_Inr [OF parse]
  from np pr(1) have "\<forall>r \<in> set (concat batches). trim p r \<noteq> Panic" by simp
  then obtain fin where fin: "rtranclp (stepS p) (initStream batches wr) fin" "joined fin"
      "resultsChan fin = []"
    using stream_finishes_iff [of p batches wr] by blast
  from runStream.completedS [OF parse fin] show ?thesis by blast
qed

lemma records_test_input:
  "records test_input = [(''@READ1'', ''ATCGATCC'', ''+'', ''IIIIIIII'')]"
  by (simp add: test_input_def line_def dropCR_def)

lemma survivors_test_input:
  "survivors test_params (map to_read (records test_input)) = [test_trimmed]"
proof -
  have "to_read (''@READ1'', ''ATCGATCC'', ''+'', ''IIIIIIII'') = test_read"
    by (simp add: to_read_def test_read_def)
  then show ?thesis
    by (simp add: records_test_input survivors_def trim_test_read)
qed

section \<open>The claims\<close>

text \<open>
  Claim C4. Whenever \<open>trimRead\<close> returns a read, the identifier is the input's, the
  sequence and the quality are the input strings sliced to the window from \<open>trim5\<close> to
  the leftmost match index minus \<open>trim3\<close>, both have the same length, and that length is
  at least \<open>minLen\<close>. The example of the specification evaluates to \<open>ATCG\<close> with
  quality \<open>FFFF\<close>.
\<close>

theorem trimRead_survivor:
  "(trimRead read adapter minLen trim5 trim3 min5Match maxError = Ok out \<longrightarrow>
      Header out = Header read \<and>
      (\<exists>pre i. go_slice adapter 0 (sint min5Match) = Some pre \<and>
          leftmost_occurrence (Sequence read) pre i \<and>
          go_slice (Sequence read) (sint trim5) (sint ((word_of_nat i :: go_int) - trim3))
            = Some (Sequence out) \<and>
          go_slice (Quality read) (sint trim5) (sint ((word_of_nat i :: go_int) - trim3))
            = Some (Quality out) \<and>
          (length (Sequence read) < 2 ^ 63 \<longrightarrow>
             sint ((word_of_nat i :: go_int) - trim3) = int i - sint trim3)) \<and>
      length (Sequence out) = length (Quality out) \<and>
      sint minLen \<le> int (length (Sequence out)))
   \<and> trimRead \<lparr>Header = ''@Header'', Sequence = ''ATCGATCC'', Quality = ''FFFFFFFF''\<rparr>
         ''ATCC'' 2 0 0 4 (Finite (1 / 10))
       = Ok \<lparr>Header = ''@Header'', Sequence = ''ATCG'', Quality = ''FFFF''\<rparr>"
proof (intro conjI impI)
  assume ok: "trimRead read adapter minLen trim5 trim3 min5Match maxError = Ok out"
  then obtain pre i s q where
    pre: "go_slice adapter 0 (sint min5Match) = Some pre"
    and idx: "indexFrom (Sequence read) pre = Some i"
    and long: "\<not> sint ((word_of_nat i :: go_int) - trim3 - trim5) < sint minLen"
    and s: "go_slice (Sequence read) (sint trim5) (sint ((word_of_nat i :: go_int) - trim3)) = Some s"
    and q: "go_slice (Quality read) (sint trim5) (sint ((word_of_nat i :: go_int) - trim3)) = Some q"
    and out: "out = \<lparr>Header = Header read, Sequence = s, Quality = q\<rparr>"
    by (cases rule: trimRead_cases [of adapter min5Match read minLen trim5 trim3 maxError]) simp_all
  from go_slice_SomeD [OF s] have
    b: "0 \<le> sint trim5" "sint trim5 \<le> sint ((word_of_nat i :: go_int) - trim3)"
       "sint ((word_of_nat i :: go_int) - trim3) \<le> int (length (Sequence read))"
    and ls: "int (length s) = sint ((word_of_nat i :: go_int) - trim3) - sint trim5"
    by blast+
  from go_slice_SomeD [OF q] have
    lq: "int (length q) = sint ((word_of_nat i :: go_int) - trim3) - sint trim5"
    by blast
  show "Header out = Header read" using out by simp
  have exact: "sint ((word_of_nat i :: go_int) - trim3) = int i - sint trim3"
    if "length (Sequence read) < 2 ^ 63"
  proof (rule window_end_exact)
    from indexFrom_Some_bound [OF idx] have "i \<le> length (Sequence read)" by simp
    with that show "i < 2 ^ 63" by simp
    from b show "0 \<le> sint ((word_of_nat i :: go_int) - trim3)" by simp
  qed
  show "\<exists>pre i. go_slice adapter 0 (sint min5Match) = Some pre \<and>
          leftmost_occurrence (Sequence read) pre i \<and>
          go_slice (Sequence read) (sint trim5) (sint ((word_of_nat i :: go_int) - trim3))
            = Some (Sequence out) \<and>
          go_slice (Quality read) (sint trim5) (sint ((word_of_nat i :: go_int) - trim3))
            = Some (Quality out) \<and>
          (length (Sequence read) < 2 ^ 63 \<longrightarrow>
             sint ((word_of_nat i :: go_int) - trim3) = int i - sint trim3)"
    using pre indexFrom_leftmost_occurrence [OF idx] s q out exact
    by (intro exI [of _ pre] exI [of _ i]) simp
  show "length (Sequence out) = length (Quality out)"
    using ls lq out by simp
  have "sint ((word_of_nat i :: go_int) - trim3 - trim5)
          = sint ((word_of_nat i :: go_int) - trim3) - sint trim5"
    using b by (intro sint_diff_valid) simp_all
  with long ls show "sint minLen \<le> int (length (Sequence out))"
    using out by simp
next
  show "trimRead \<lparr>Header = ''@Header'', Sequence = ''ATCGATCC'', Quality = ''FFFFFFFF''\<rparr>
         ''ATCC'' 2 0 0 4 (Finite (1 / 10))
       = Ok \<lparr>Header = ''@Header'', Sequence = ''ATCG'', Quality = ''FFFF''\<rparr>"
    by (rule ex_success)
qed

theorem trimRead_survivor_witness:
  "trimRead \<lparr>Header = ''@Header'', Sequence = ''ATCGATCC'', Quality = ''FFFFFFFF''\<rparr>
      ''ATCC'' 2 0 0 4 (Finite (1 / 10))
     = Ok \<lparr>Header = ''@Header'', Sequence = ''ATCG'', Quality = ''FFFF''\<rparr>
   \<and> length (Sequence \<lparr>Header = ''@Header'', Sequence = ''ATCG'', Quality = ''FFFF''\<rparr>)
       = length (Quality \<lparr>Header = ''@Header'', Sequence = ''ATCG'', Quality = ''FFFF''\<rparr>)
   \<and> sint (2 :: go_int)
       \<le> int (length (Sequence \<lparr>Header = ''@Header'', Sequence = ''ATCG'', Quality = ''FFFF''\<rparr>))"
proof -
  note t = trimRead_survivor
    [of "\<lparr>Header = ''@Header'', Sequence = ''ATCGATCC'', Quality = ''FFFFFFFF''\<rparr>"
        "''ATCC''" 2 0 0 4 "Finite (1 / 10)"
        "\<lparr>Header = ''@Header'', Sequence = ''ATCG'', Quality = ''FFFF''\<rparr>"]
  from t have h: "trimRead \<lparr>Header = ''@Header'', Sequence = ''ATCGATCC'', Quality = ''FFFFFFFF''\<rparr>
      ''ATCC'' 2 0 0 4 (Finite (1 / 10))
     = Ok \<lparr>Header = ''@Header'', Sequence = ''ATCG'', Quality = ''FFFF''\<rparr>"
    by (rule conjunct2)
  from t [THEN conjunct1, rule_format, OF h] h show ?thesis by blast
qed

text \<open>
  Claim C5, as amended. With \<open>min5Match\<close> between 0 and the adapter's length,
  \<open>trimRead\<close> returns the adapter-missing rejection exactly when the first \<open>min5Match\<close>
  characters of the adapter are not a substring of the sequence. When they are, the index
  the rest of the function works with is the leftmost occurrence: the too-short test and
  the slice of a surviving read are taken at that index. The example \<open>TTTT\<close> with
  \<open>min5Match = 3\<close> against \<open>ATCGATCG\<close> is rejected as adapter missing, whatever the
  other parameters are. (With \<open>min5Match\<close> beyond the adapter's length the slice
  \<open>adapter[:min5Match]\<close> panics before the search: see the counterexample.)
\<close>

theorem adapter_missing_iff:
  "(0 \<le> sint min5Match \<and> sint min5Match \<le> int (length adapter) \<longrightarrow>
      (trimRead read adapter minLen trim5 trim3 min5Match maxError = AdapterMissing
         \<longleftrightarrow> \<not> sublist (take (nat (sint min5Match)) adapter) (Sequence read)) \<and>
      (sublist (take (nat (sint min5Match)) adapter) (Sequence read) \<longrightarrow>
         (\<exists>i. leftmost_occurrence (Sequence read) (take (nat (sint min5Match)) adapter) i \<and>
              (trimRead read adapter minLen trim5 trim3 min5Match maxError = TooShort
                 \<longleftrightarrow> sint ((word_of_nat i :: go_int) - trim3 - trim5) < sint minLen) \<and>
              (\<forall>out. trimRead read adapter minLen trim5 trim3 min5Match maxError = Ok out \<longrightarrow>
                 go_slice (Sequence read) (sint trim5) (sint ((word_of_nat i :: go_int) - trim3))
                   = Some (Sequence out)))))
   \<and> trimRead \<lparr>Header = h, Sequence = ''ATCGATCG'', Quality = q\<rparr>
        ''TTTT'' minLen trim5 trim3 3 maxError = AdapterMissing"
proof (intro conjI impI)
  assume "0 \<le> sint min5Match \<and> sint min5Match \<le> int (length adapter)"
  then have pre: "go_slice adapter 0 (sint min5Match) = Some (take (nat (sint min5Match)) adapter)"
    by (simp add: go_slice_prefix)
  show "trimRead read adapter minLen trim5 trim3 min5Match maxError = AdapterMissing
         \<longleftrightarrow> \<not> sublist (take (nat (sint min5Match)) adapter) (Sequence read)"
  proof (cases "indexFrom (Sequence read) (take (nat (sint min5Match)) adapter)")
    case None
    with trimRead_absent [OF pre None] show ?thesis
      by (simp add: AdapterMissing_def indexFrom_None_iff)
  next
    case (Some i)
    then have "sublist (take (nat (sint min5Match)) adapter) (Sequence read)"
      using indexFrom_found_iff [of "Sequence read" "take (nat (sint min5Match)) adapter"] by simp
    with adapter_prefix_found_cases(2) [OF pre Some] show ?thesis by simp
  qed
next
  assume "0 \<le> sint min5Match \<and> sint min5Match \<le> int (length adapter)"
  then have pre: "go_slice adapter 0 (sint min5Match) = Some (take (nat (sint min5Match)) adapter)"
    by (simp add: go_slice_prefix)
  assume "sublist (take (nat (sint min5Match)) adapter) (Sequence read)"
  then obtain i where idx: "indexFrom (Sequence read) (take (nat (sint min5Match)) adapter) = Some i"
    using indexFrom_found_iff [of "Sequence read" "take (nat (sint min5Match)) adapter"] by blast
  show "\<exists>i. leftmost_occurrence (Sequence read) (take (nat (sint min5Match)) adapter) i \<and>
              (trimRead read adapter minLen trim5 trim3 min5Match maxError = TooShort
                 \<longleftrightarrow> sint ((word_of_nat i :: go_int) - trim3 - trim5) < sint minLen) \<and>
              (\<forall>out. trimRead read adapter minLen trim5 trim3 min5Match maxError = Ok out \<longrightarrow>
                 go_slice (Sequence read) (sint trim5) (sint ((word_of_nat i :: go_int) - trim3))
                   = Some (Sequence out))"
    using indexFrom_leftmost_occurrence [OF idx]
      adapter_prefix_found_cases(1) [OF pre idx] adapter_prefix_found_cases(3) [OF pre idx]
    by (intro exI [of _ i]) blast
next
  show "trimRead \<lparr>Header = h, Sequence = ''ATCGATCG'', Quality = q\<rparr>
        ''TTTT'' minLen trim5 trim3 3 maxError = AdapterMissing"
    by (rule ex_missing)
qed

theorem adapter_missing_iff_witness:
  "trimRead \<lparr>Header = ''@Header'', Sequence = ''ATCGATCG'', Quality = ''FFFFFFFF''\<rparr>
        ''TTTT'' 4 0 0 3 (Finite (1 / 10)) = AdapterMissing
   \<and> \<not> sublist ''TTT'' ''ATCGATCG''
   \<and> sublist ''ATCC'' ''ATCGATCC''
   \<and> (\<exists>i. leftmost_occurrence ''ATCGATCC'' ''ATCC'' i \<and>
        (\<forall>out. trimRead \<lparr>Header = ''@Header'', Sequence = ''ATCGATCC'', Quality = ''FFFFFFFF''\<rparr>
                   ''ATCC'' 2 0 0 4 (Finite (1 / 10)) = Ok out \<longrightarrow>
             go_slice ''ATCGATCC'' 0 (sint ((word_of_nat i :: go_int) - 0)) = Some (Sequence out)))"
proof -
  have h1: "0 \<le> sint (3 :: go_int) \<and> sint (3 :: go_int) \<le> int (length ''TTTT'')" by simp
  have h2: "0 \<le> sint (4 :: go_int) \<and> sint (4 :: go_int) \<le> int (length ''ATCC'')" by simp
  have s2: "sublist ''ATCC'' ''ATCGATCC''"
    using indexFrom_None_iff [of "''ATCGATCC''" "''ATCC''"] by simp
  note a = adapter_missing_iff
    [of 3 "''TTTT''" "\<lparr>Header = ''@Header'', Sequence = ''ATCGATCG'', Quality = ''FFFFFFFF''\<rparr>"
        4 0 0 "Finite (1 / 10)", THEN conjunct1, rule_format, OF h1]
  note b = adapter_missing_iff
    [of 4 "''ATCC''" "\<lparr>Header = ''@Header'', Sequence = ''ATCGATCC'', Quality = ''FFFFFFFF''\<rparr>"
        2 0 0 "Finite (1 / 10)", THEN conjunct1, rule_format, OF h2]
  from a have a1: "trimRead \<lparr>Header = ''@Header'', Sequence = ''ATCGATCG'', Quality = ''FFFFFFFF''\<rparr>
        ''TTTT'' 4 0 0 3 (Finite (1 / 10)) = AdapterMissing \<longleftrightarrow> \<not> sublist ''TTT'' ''ATCGATCG''"
    by (simp add: numeral_eq_Suc)
  have m: "trimRead \<lparr>Header = ''@Header'', Sequence = ''ATCGATCG'', Quality = ''FFFFFFFF''\<rparr>
        ''TTTT'' 4 0 0 3 (Finite (1 / 10)) = AdapterMissing"
    by (rule ex_missing)
  from b s2 have "\<exists>i. leftmost_occurrence ''ATCGATCC'' ''ATCC'' i \<and>
        (\<forall>out. trimRead \<lparr>Header = ''@Header'', Sequence = ''ATCGATCC'', Quality = ''FFFFFFFF''\<rparr>
                   ''ATCC'' 2 0 0 4 (Finite (1 / 10)) = Ok out \<longrightarrow>
             go_slice ''ATCGATCC'' 0 (sint ((word_of_nat i :: go_int) - 0)) = Some (Sequence out))"
    by (simp add: numeral_eq_Suc) blast
  with a1 m s2 show ?thesis by blast
qed

text \<open>
  The claim without the condition on \<open>min5Match\<close> fails: with the adapter \<open>TTTT\<close> and
  \<open>min5Match = 8\<close> no prefix of the adapter occurs in \<open>ATCGATCG\<close>, and the result is
  a panic, not the adapter-missing rejection.
\<close>

theorem adapter_missing_counterexample:
  "\<not> sublist (take 8 ''TTTT'') ''ATCGATCG''
   \<and> trimRead \<lparr>Header = ''@Header'', Sequence = ''ATCGATCG'', Quality = ''FFFFFFFF''\<rparr>
        ''TTTT'' 18 0 0 8 (Finite (1 / 10)) = Panic
   \<and> trimRead \<lparr>Header = ''@Header'', Sequence = ''ATCGATCG'', Quality = ''FFFFFFFF''\<rparr>
        ''TTTT'' 18 0 0 8 (Finite (1 / 10)) \<noteq> AdapterMissing"
proof -
  have "\<not> sublist ''TTTT'' ''ATCGATCG''"
    using indexFrom_None_iff [of "''ATCGATCG''" "''TTTT''"] by simp
  moreover have "trimRead \<lparr>Header = ''@Header'', Sequence = ''ATCGATCG'', Quality = ''FFFFFFFF''\<rparr>
        ''TTTT'' 18 0 0 8 (Finite (1 / 10)) = Panic"
    by (simp add: trimRead_def go_slice_def)
  ultimately show ?thesis by (simp add: AdapterMissing_def)
qed

text \<open>
  Claim C6, as amended. When the adapter prefix is found at its leftmost index and the
  window passes the length test, \<open>trimRead\<close> returns the low-quality rejection exactly
  when both slices exist and the mean error that \<open>meanError\<close> computes for the quality
  window in \<open>float64\<close> arithmetic compares \<open>>=\<close> against \<open>maxError\<close>; the comparison
  is inclusive. The computed error probability of a character is the power of ten at the
  rounded exponent \<open>(33 - code) / 10\<close>, rounded; and the computed mean of a non-empty
  window of at most \<open>2 ^ 53\<close> characters lies between any two powers of two that bound
  the computed error probabilities of its characters. The example with quality all \<open>!\<close>
  is rejected as low quality for every \<open>minLen\<close> up to the window length 4 and every
  threshold up to 1.
\<close>

theorem low_quality_iff:
  "(go_slice adapter 0 (sint min5Match) = Some pre \<and>
    leftmost_occurrence (Sequence read) pre i \<and>
    \<not> sint ((word_of_nat i :: go_int) - trim3 - trim5) < sint minLen \<longrightarrow>
      (trimRead read adapter minLen trim5 trim3 min5Match maxError = LowQuality \<longleftrightarrow>
         (\<exists>s q. go_slice (Sequence read) (sint trim5) (sint ((word_of_nat i :: go_int) - trim3)) = Some s
             \<and> go_slice (Quality read) (sint trim5) (sint ((word_of_nat i :: go_int) - trim3)) = Some q
             \<and> f64_ge (meanError q) maxError)))
   \<and> phred33ToError c = f64_of_real (10 powr rnd ((33 - real (of_char c :: nat)) / 10))
   \<and> (w \<noteq> [] \<and> length w \<le> 2 ^ 53 \<and> - 1074 \<le> a \<and> a \<le> b \<and> b \<le> 900 \<and>
       (\<forall>c \<in> set w. \<exists>x. phred33ToError c = Finite x \<and> 2 powr of_int a \<le> x \<and> x \<le> 2 powr of_int b) \<longrightarrow>
         (\<exists>m'. meanError w = Finite m' \<and> 2 powr of_int a \<le> m' \<and> m' \<le> 2 powr of_int b))
   \<and> f64_ge (Finite m) (Finite m)
   \<and> (sint minLen' \<le> 4 \<and> t \<le> 1 \<longrightarrow>
        trimRead \<lparr>Header = h, Sequence = ''ATCGATCC'', Quality = ''!!!!!!!!''\<rparr>
          ''ATCC'' minLen' 0 0 4 (Finite t) = LowQuality)"
proof (intro conjI impI)
  assume a: "go_slice adapter 0 (sint min5Match) = Some pre \<and>
    leftmost_occurrence (Sequence read) pre i \<and>
    \<not> sint ((word_of_nat i :: go_int) - trim3 - trim5) < sint minLen"
  then have idx: "indexFrom (Sequence read) pre = Some i"
    by (simp add: leftmost_occurrence_indexFrom)
  from a adapter_prefix_found_cases(4) [OF _ idx, of adapter min5Match trim3 trim5 minLen maxError]
  show "trimRead read adapter minLen trim5 trim3 min5Match maxError = LowQuality \<longleftrightarrow>
         (\<exists>s q. go_slice (Sequence read) (sint trim5) (sint ((word_of_nat i :: go_int) - trim3)) = Some s
             \<and> go_slice (Quality read) (sint trim5) (sint ((word_of_nat i :: go_int) - trim3)) = Some q
             \<and> f64_ge (meanError q) maxError)"
    by blast
next
  show "phred33ToError c = f64_of_real (10 powr rnd ((33 - real (of_char c :: nat)) / 10))"
    using phred_exponent [of c] by (simp add: phred33ToError_def)
next
  assume "w \<noteq> [] \<and> length w \<le> 2 ^ 53 \<and> - 1074 \<le> a \<and> a \<le> b \<and> b \<le> 900 \<and>
       (\<forall>c \<in> set w. \<exists>x. phred33ToError c = Finite x \<and> 2 powr of_int a \<le> x \<and> x \<le> 2 powr of_int b)"
  then show "\<exists>m'. meanError w = Finite m' \<and> 2 powr of_int a \<le> m' \<and> m' \<le> 2 powr of_int b"
    by (intro meanError_pow2_bounds) simp_all
next
  show "f64_ge (Finite m) (Finite m)" by simp
next
  assume "sint minLen' \<le> 4 \<and> t \<le> 1"
  then show "trimRead \<lparr>Header = h, Sequence = ''ATCGATCC'', Quality = ''!!!!!!!!''\<rparr>
          ''ATCC'' minLen' 0 0 4 (Finite t) = LowQuality"
    by (simp add: ex_low)
qed

theorem low_quality_iff_witness:
  "go_slice ''ATCC'' 0 (sint (4 :: go_int)) = Some ''ATCC''
   \<and> leftmost_occurrence ''ATCGATCC'' ''ATCC'' 4
   \<and> \<not> sint ((word_of_nat 4 :: go_int) - 0 - 0) < sint (2 :: go_int)
   \<and> trimRead \<lparr>Header = ''@Header'', Sequence = ''ATCGATCC'', Quality = ''!!!!!!!!''\<rparr>
          ''ATCC'' 2 0 0 4 (Finite (1 / 10)) = LowQuality
   \<and> (\<exists>s q. go_slice ''ATCGATCC'' 0 (sint ((word_of_nat 4 :: go_int) - 0)) = Some s
         \<and> go_slice ''!!!!!!!!'' 0 (sint ((word_of_nat 4 :: go_int) - 0)) = Some q
         \<and> f64_ge (meanError q) (Finite (1 / 10)))
   \<and> phred33ToError (CHR ''!'') = Finite 1
   \<and> meanError ''!!!!'' = Finite 1"
proof -
  have h: "go_slice ''ATCC'' 0 (sint (4 :: go_int)) = Some ''ATCC'' \<and>
    leftmost_occurrence (Sequence \<lparr>Header = ''@Header'', Sequence = ''ATCGATCC'', Quality = ''!!!!!!!!''\<rparr>) ''ATCC'' 4 \<and>
    \<not> sint ((word_of_nat 4 :: go_int) - 0 - 0) < sint (2 :: go_int)"
    using indexFrom_leftmost_occurrence [of "''ATCGATCC''" "''ATCC''" 4]
    by (simp add: go_slice_def)
  have l: "sint (2 :: go_int) \<le> 4 \<and> (1 / 10 :: real) \<le> 1" by simp
  note t = low_quality_iff
    [of "''ATCC''" 4 "''ATCC''"
        "\<lparr>Header = ''@Header'', Sequence = ''ATCGATCC'', Quality = ''!!!!!!!!''\<rparr>" 4 0 0 2
        "Finite (1 / 10)" "CHR ''!''" "''!!!!''" 0 0 0 2 "1 / 10" "''@Header''"]
  have p1: "phred33ToError (CHR ''!'') = Finite 1"
    using t [THEN conjunct2, THEN conjunct1] rnd_nat [of 1] by (simp add: rnd_def f64_of_real_def)
  have b: "''!!!!'' \<noteq> [] \<and> length ''!!!!'' \<le> 2 ^ 53 \<and> - 1074 \<le> (0::int) \<and> (0::int) \<le> 0 \<and> (0::int) \<le> 900 \<and>
       (\<forall>c \<in> set ''!!!!''. \<exists>x. phred33ToError c = Finite x \<and> 2 powr of_int 0 \<le> x \<and> x \<le> 2 powr of_int 0)"
    by (simp add: p1)
  from t l have t4: "trimRead \<lparr>Header = ''@Header'', Sequence = ''ATCGATCC'', Quality = ''!!!!!!!!''\<rparr>
          ''ATCC'' 2 0 0 4 (Finite (1 / 10)) = LowQuality"
    by blast
  from t [THEN conjunct2, THEN conjunct2, THEN conjunct1, rule_format, OF b]
  have t2: "meanError ''!!!!'' = Finite 1" by auto
  from t [THEN conjunct1, rule_format, OF h] t4
  have "\<exists>s q. go_slice ''ATCGATCC'' 0 (sint ((word_of_nat 4 :: go_int) - 0)) = Some s
         \<and> go_slice ''!!!!!!!!'' 0 (sint ((word_of_nat 4 :: go_int) - 0)) = Some q
         \<and> f64_ge (meanError q) (Finite (1 / 10))"
    by simp
  with h t4 t2 p1 show ?thesis by simp
qed

text \<open>
  The claim as the specification words it, with the mean of the error probabilities
  \<open>10 ^ (- (code - 33) / 10)\<close> taken in the real numbers, fails in both directions at
  the threshold. The threshold is the \<open>float64\<close> written \<open>0.1\<close>. A window of the one
  quality character \<open>+\<close> (code 43) has the exact mean \<open>1 / 10\<close>, below the threshold,
  and is rejected as low quality, because the computed error probability is the
  threshold itself. A window of ten characters \<open>+\<close> is returned as a trimmed read,
  although each of its computed error probabilities is the threshold: the rounded sum of
  the ten, divided by ten, is one unit in the last place below it.
\<close>

theorem low_quality_counterexample:
  "f64_of_real (1 / 10) = Finite (7205759403792794 / 72057594037927936)
   \<and> exact_mean ''+'' = 1 / 10
   \<and> exact_mean ''+'' < 7205759403792794 / 72057594037927936
   \<and> trimRead \<lparr>Header = ''@r'', Sequence = ''GATCC'', Quality = ''+FFFF''\<rparr>
        ''ATCC'' 1 0 0 4 (f64_of_real (1 / 10)) = LowQuality
   \<and> phred33ToError (CHR ''+'') = f64_of_real (1 / 10)
   \<and> meanError ''++++++++++'' = Finite (7205759403792793 / 72057594037927936)
   \<and> trimRead \<lparr>Header = ''@r'', Sequence = ''GGGGGGGGGGATCC'', Quality = ''++++++++++FFFF''\<rparr>
        ''ATCC'' 1 0 0 4 (f64_of_real (1 / 10))
       = Ok \<lparr>Header = ''@r'', Sequence = ''GGGGGGGGGG'', Quality = ''++++++++++''\<rparr>"
proof -
  have t: "f64_of_real (1 / 10) = Finite (7205759403792794 / 72057594037927936)"
    by (simp add: f64_of_real_def rnd_tenth)
  have e: "exact_mean ''+'' = 1 / 10"
    by (simp add: exact_mean_def perr_def powr_minus_divide)
  have "''+'' = replicate 1 (CHR ''+'')" by simp
  have m1: "meanError ''+'' = Finite (7205759403792794 / 72057594037927936)"
    using ten_plus_1 float64_of_nat_small [of 1] rnd_tenth
    by (simp add: meanError_def phred33ToError_43 f64_of_real_def)
  have one: "trimRead \<lparr>Header = ''@r'', Sequence = ''GATCC'', Quality = ''+FFFF''\<rparr>
        ''ATCC'' 1 0 0 4 (f64_of_real (1 / 10)) = LowQuality"
    unfolding t using m1
    by (simp add: trimRead_def go_slice_def strings_Index_def Let_def LowQuality_def)
  have ten: "trimRead \<lparr>Header = ''@r'', Sequence = ''GGGGGGGGGGATCC'', Quality = ''++++++++++FFFF''\<rparr>
        ''ATCC'' 1 0 0 4 (f64_of_real (1 / 10))
       = Ok \<lparr>Header = ''@r'', Sequence = ''GGGGGGGGGG'', Quality = ''++++++++++''\<rparr>"
    unfolding t using meanError_ten_plus
    by (simp add: trimRead_def go_slice_def strings_Index_def Let_def)
  from t e one ten meanError_ten_plus show ?thesis
    by (simp add: phred33ToError_43)
qed

text \<open>
  Claim C8, as amended. The error probability of code 33 is exactly 1, that of code 43
  is 0.1 (within 1e-5), and the mean error of a string of \<open>n\<close> characters of code 33 is 1
  for every positive \<open>n\<close> up to \<open>2 ^ 53\<close>. For the empty string the mean is \<open>0 / 0\<close>,
  which is NaN. (Beyond \<open>2 ^ 53\<close> the \<open>float64\<close> sum of ones no longer grows, and the
  mean of \<open>2 ^ 53 + 2\<close> such characters is below 1.)
\<close>

theorem quality_conversion:
  "phred33ToError (char_of (33 :: nat)) = Finite 1
   \<and> (\<exists>e. phred33ToError (char_of (43 :: nat)) = Finite e \<and> \<bar>e - 1 / 10\<bar> \<le> 1 / 100000)
   \<and> (0 < n \<and> n \<le> 2 ^ 53 \<longrightarrow> meanError (replicate n (char_of (33 :: nat))) = Finite 1)
   \<and> meanError (replicate 0 (char_of (33 :: nat))) = NaN
   \<and> (\<exists>m. meanError (replicate (2 ^ 53 + 2) (char_of (33 :: nat))) = Finite m \<and> m < 1)"
proof -
  have c33: "char_of (33 :: nat) = CHR ''!''" by code_simp
  have c43: "char_of (43 :: nat) = CHR ''+''" by code_simp
  have "\<exists>e. phred33ToError (CHR ''+'') = Finite e \<and> \<bar>e - 1 / 10\<bar> \<le> 1 / 100000"
    by (intro exI [of _ "7205759403792794 / 72057594037927936"]) (simp add: phred33ToError_43)
  then show ?thesis
    unfolding c33 c43 using meanError_saturated
    by (simp add: phred33ToError_33 meanError_ones meanError_Nil)
qed

theorem quality_conversion_witness:
  "(0 :: nat) < 5 \<and> (5 :: nat) \<le> 2 ^ 53
   \<and> meanError (replicate 5 (char_of (33 :: nat))) = Finite 1"
proof -
  have h: "(0 :: nat) < 5 \<and> (5 :: nat) \<le> 2 ^ 53" by simp
  from quality_conversion [of 5] h show ?thesis by blast
qed

theorem mean_error_empty_counterexample:
  "meanError (replicate 0 (char_of (33 :: nat))) \<noteq> Finite 1"
  by (simp add: meanError_Nil)

text \<open>
  Claim C1, as amended. Once the adapter prefix is found (leftmost index \<open>i\<close>),
  \<open>trimRead\<close> returns the too-short rejection exactly when the 64-bit difference
  \<open>(i - trim3) - trim5\<close> is less than \<open>minLen\<close>; the signs of \<open>trim5\<close> and \<open>trim3\<close> are
  not tested. With \<open>minLen \<ge> 1\<close>: a window whose end is at or before its start is
  rejected as too short (as long as the difference does not wrap around), in particular
  every window of length zero; and whenever the function gets as far as comparing the
  mean error, the quality window is non-empty and its mean is not NaN.
\<close>

theorem too_short_iff:
  "(go_slice adapter 0 (sint min5Match) = Some pre \<and>
    leftmost_occurrence (Sequence read) pre i \<longrightarrow>
      (trimRead read adapter minLen trim5 trim3 min5Match maxError = TooShort
         \<longleftrightarrow> sint ((word_of_nat i :: go_int) - trim3 - trim5) < sint minLen) \<and>
      (1 \<le> sint minLen \<and> int i - sint trim3 \<le> sint trim5 \<and>
       - (2 ^ 63) \<le> int i - sint trim3 - sint trim5 \<longrightarrow>
         trimRead read adapter minLen trim5 trim3 min5Match maxError = TooShort) \<and>
      (1 \<le> sint minLen \<and> (word_of_nat i :: go_int) - trim3 = trim5 \<longrightarrow>
         trimRead read adapter minLen trim5 trim3 min5Match maxError = TooShort) \<and>
      (1 \<le> sint minLen \<and>
       (trimRead read adapter minLen trim5 trim3 min5Match maxError = LowQuality \<or>
        (\<exists>out. trimRead read adapter minLen trim5 trim3 min5Match maxError = Ok out)) \<longrightarrow>
         (\<exists>q. go_slice (Quality read) (sint trim5) (sint ((word_of_nat i :: go_int) - trim3)) = Some q
              \<and> q \<noteq> [] \<and> meanError q \<noteq> NaN)))"
proof (intro impI)
  assume a: "go_slice adapter 0 (sint min5Match) = Some pre \<and>
    leftmost_occurrence (Sequence read) pre i"
  then have pre: "go_slice adapter 0 (sint min5Match) = Some pre"
    and idx: "indexFrom (Sequence read) pre = Some i"
    by (simp_all add: leftmost_occurrence_indexFrom)
  note iff = adapter_prefix_found_cases(1) [OF pre idx, of minLen trim5 trim3 maxError]
  have inverted: "trimRead read adapter minLen trim5 trim3 min5Match maxError = TooShort"
    if "1 \<le> sint minLen \<and> int i - sint trim3 \<le> sint trim5 \<and>
       - (2 ^ 63) \<le> int i - sint trim3 - sint trim5"
  proof -
    from that have "sint ((word_of_nat i :: go_int) - trim3 - trim5) = int i - sint trim3 - sint trim5"
      by (intro window_length_exact) simp_all
    with that iff show ?thesis by simp
  qed
  have zero: "trimRead read adapter minLen trim5 trim3 min5Match maxError = TooShort"
    if "1 \<le> sint minLen \<and> (word_of_nat i :: go_int) - trim3 = trim5"
    using that iff by simp
  have nonempty: "\<exists>q. go_slice (Quality read) (sint trim5) (sint ((word_of_nat i :: go_int) - trim3)) = Some q
              \<and> q \<noteq> [] \<and> meanError q \<noteq> NaN"
    if h: "1 \<le> sint minLen \<and>
       (trimRead read adapter minLen trim5 trim3 min5Match maxError = LowQuality \<or>
        (\<exists>out. trimRead read adapter minLen trim5 trim3 min5Match maxError = Ok out))"
  proof -
    from h have nts: "trimRead read adapter minLen trim5 trim3 min5Match maxError \<noteq> TooShort"
      by (auto simp: LowQuality_def TooShort_def)
    with iff have long: "\<not> sint ((word_of_nat i :: go_int) - trim3 - trim5) < sint minLen" by simp
    from h obtain s q where
      s: "go_slice (Sequence read) (sint trim5) (sint ((word_of_nat i :: go_int) - trim3)) = Some s"
      and q: "go_slice (Quality read) (sint trim5) (sint ((word_of_nat i :: go_int) - trim3)) = Some q"
      unfolding trimRead_found [OF pre idx] LowQuality_def
      by (auto split: if_splits option.splits)
    from go_slice_SomeD [OF q] have
      b: "0 \<le> sint trim5" "sint trim5 \<le> sint ((word_of_nat i :: go_int) - trim3)"
      and lq: "int (length q) = sint ((word_of_nat i :: go_int) - trim3) - sint trim5"
      by blast+
    have "sint ((word_of_nat i :: go_int) - trim3 - trim5)
            = sint ((word_of_nat i :: go_int) - trim3) - sint trim5"
      using b by (intro sint_diff_valid) simp_all
    with long lq h have "1 \<le> int (length q)" by simp
    then have ne: "q \<noteq> []" by auto
    have "sint ((word_of_nat i :: go_int) - trim3) < 2 ^ 63"
      using sint_lt [of "(word_of_nat i :: go_int) - trim3"] by simp
    with lq b have "int (length q) < 2 ^ 63" by simp
    then have "length q < 2 ^ 63" by (metis of_nat_less_iff of_nat_numeral of_nat_power)
    with ne q show ?thesis by (auto simp: meanError_nonempty_not_NaN)
  qed
  from iff inverted zero nonempty
  show "(trimRead read adapter minLen trim5 trim3 min5Match maxError = TooShort
         \<longleftrightarrow> sint ((word_of_nat i :: go_int) - trim3 - trim5) < sint minLen) \<and>
      (1 \<le> sint minLen \<and> int i - sint trim3 \<le> sint trim5 \<and>
       - (2 ^ 63) \<le> int i - sint trim3 - sint trim5 \<longrightarrow>
         trimRead read adapter minLen trim5 trim3 min5Match maxError = TooShort) \<and>
      (1 \<le> sint minLen \<and> (word_of_nat i :: go_int) - trim3 = trim5 \<longrightarrow>
         trimRead read adapter minLen trim5 trim3 min5Match maxError = TooShort) \<and>
      (1 \<le> sint minLen \<and>
       (trimRead read adapter minLen trim5 trim3 min5Match maxError = LowQuality \<or>
        (\<exists>out. trimRead read adapter minLen trim5 trim3 min5Match maxError = Ok out)) \<longrightarrow>
         (\<exists>q. go_slice (Quality read) (sint trim5) (sint ((word_of_nat i :: go_int) - trim3)) = Some q
              \<and> q \<noteq> [] \<and> meanError q \<noteq> NaN))"
    by blast
qed

theorem too_short_iff_witness:
  "go_slice ''ATCC'' 0 (sint (4 :: go_int)) = Some ''ATCC''
   \<and> leftmost_occurrence ''ATCGATCC'' ''ATCC'' 4
   \<and> (1 :: int) \<le> sint (2 :: go_int) \<and> int 4 - sint (0 :: go_int) \<le> sint (5 :: go_int)
   \<and> trimRead \<lparr>Header = ''@Header'', Sequence = ''ATCGATCC'', Quality = ''FFFFFFFF''\<rparr>
        ''ATCC'' 2 5 0 4 (Finite (1 / 10)) = TooShort
   \<and> (word_of_nat 4 :: go_int) - 0 = 4
   \<and> trimRead \<lparr>Header = ''@Header'', Sequence = ''ATCGATCC'', Quality = ''FFFFFFFF''\<rparr>
        ''ATCC'' 2 4 0 4 (Finite (1 / 10)) = TooShort
   \<and> (\<exists>q. go_slice ''FFFFFFFF'' 0 (sint ((word_of_nat 4 :: go_int) - 0)) = Some q
          \<and> q \<noteq> [] \<and> meanError q \<noteq> NaN)"
proof -
  have h: "go_slice ''ATCC'' 0 (sint (4 :: go_int)) = Some ''ATCC'' \<and>
    leftmost_occurrence (Sequence \<lparr>Header = ''@Header'', Sequence = ''ATCGATCC'', Quality = ''FFFFFFFF''\<rparr>) ''ATCC'' 4"
    using indexFrom_leftmost_occurrence [of "''ATCGATCC''" "''ATCC''" 4]
    by (simp add: go_slice_def)
  have inv: "1 \<le> sint (2 :: go_int) \<and> int 4 - sint (0 :: go_int) \<le> sint (5 :: go_int) \<and>
       - (2 ^ 63) \<le> int 4 - sint (0 :: go_int) - sint (5 :: go_int)" by simp
  have z: "1 \<le> sint (2 :: go_int) \<and> (word_of_nat 4 :: go_int) - 0 = 4" by simp
  have ok: "1 \<le> sint (2 :: go_int) \<and>
     (trimRead \<lparr>Header = ''@Header'', Sequence = ''ATCGATCC'', Quality = ''FFFFFFFF''\<rparr>
        ''ATCC'' 2 0 0 4 (Finite (1 / 10)) = LowQuality \<or>
      (\<exists>out. trimRead \<lparr>Header = ''@Header'', Sequence = ''ATCGATCC'', Quality = ''FFFFFFFF''\<rparr>
        ''ATCC'' 2 0 0 4 (Finite (1 / 10)) = Ok out))"
    using ex_success by simp
  note t5 = too_short_iff
    [of "''ATCC''" 4 "''ATCC''"
        "\<lparr>Header = ''@Header'', Sequence = ''ATCGATCC'', Quality = ''FFFFFFFF''\<rparr>" 4
        2 5 0 "Finite (1 / 10)", rule_format, OF h]
  note t4 = too_short_iff
    [of "''ATCC''" 4 "''ATCC''"
        "\<lparr>Header = ''@Header'', Sequence = ''ATCGATCC'', Quality = ''FFFFFFFF''\<rparr>" 4
        2 4 0 "Finite (1 / 10)", rule_format, OF h]
  note t0 = too_short_iff
    [of "''ATCC''" 4 "''ATCC''"
        "\<lparr>Header = ''@Header'', Sequence = ''ATCGATCC'', Quality = ''FFFFFFFF''\<rparr>" 4
        2 0 0 "Finite (1 / 10)", rule_format, OF h]
  from t5 inv have r5: "trimRead \<lparr>Header = ''@Header'', Sequence = ''ATCGATCC'', Quality = ''FFFFFFFF''\<rparr>
        ''ATCC'' 2 5 0 4 (Finite (1 / 10)) = TooShort" by blast
  from t4 z have r4: "trimRead \<lparr>Header = ''@Header'', Sequence = ''ATCGATCC'', Quality = ''FFFFFFFF''\<rparr>
        ''ATCC'' 2 4 0 4 (Finite (1 / 10)) = TooShort" by blast
  from t0 ok have r0: "\<exists>q. go_slice (Quality \<lparr>Header = ''@Header'', Sequence = ''ATCGATCC'', Quality = ''FFFFFFFF''\<rparr>)
        (sint (0 :: go_int)) (sint ((word_of_nat 4 :: go_int) - 0)) = Some q
          \<and> q \<noteq> [] \<and> meanError q \<noteq> NaN" by blast
  from h inv r5 r4 r0 show ?thesis by simp
qed

theorem too_short_counterexample:
  "trimRead \<lparr>Header = ''@Header'', Sequence = ''ATCGATCC'', Quality = ''FFFFFFFF''\<rparr>
       ''ATCC'' 0 4 0 4 (Finite (1 / 10))
     = Ok \<lparr>Header = ''@Header'', Sequence = [], Quality = []\<rparr>
   \<and> trimRead \<lparr>Header = ''@Header'', Sequence = ''ATCGATCC'', Quality = ''FFFFFFFF''\<rparr>
       ''ATCC'' 0 4 0 4 (Finite (1 / 10)) \<noteq> TooShort
   \<and> meanError (Quality \<lparr>Header = ''@Header'', Sequence = [], Quality = []\<rparr>) = NaN
   \<and> sint (- 1 :: go_int) < 0
   \<and> trimRead \<lparr>Header = ''@Header'', Sequence = ''ATCGATCC'', Quality = ''FFFFFFFF''\<rparr>
       ''ATCC'' 2 (- 1) 0 4 (Finite (1 / 10)) = Panic
   \<and> trimRead \<lparr>Header = ''@Header'', Sequence = ''ATCGATCC'', Quality = ''FFFFFFFF''\<rparr>
       ''ATCC'' 2 0 (- 1) 4 (Finite (1 / 10))
     = Ok \<lparr>Header = ''@Header'', Sequence = ''ATCGA'', Quality = ''FFFFF''\<rparr>"
proof -
  note m5 = meanError_FFFFF
  have neg3: "trimRead \<lparr>Header = ''@Header'', Sequence = ''ATCGATCC'', Quality = ''FFFFFFFF''\<rparr>
       ''ATCC'' 2 0 (- 1) 4 (Finite (1 / 10))
     = Ok \<lparr>Header = ''@Header'', Sequence = ''ATCGA'', Quality = ''FFFFF''\<rparr>"
    using m5 by (simp add: trimRead_def go_slice_def strings_Index_def Let_def)
  from ex_empty_window ex_neg_trim5 neg3 show ?thesis
    by (simp add: TooShort_def meanError_Nil)
qed

text \<open>
  Claim C10, as amended. With \<open>0 \<le> min5Match \<le> len(adapter)\<close>, \<open>trim5 \<ge> 0\<close>,
  \<open>trim3 \<ge> 0\<close>, \<open>minLen \<ge> 1\<close>, a quality string as long as the sequence, and in
  addition \<open>trim5 + trim3 \<le> 2^63\<close> (so that the 64-bit window length does not wrap
  around; a Go string is always shorter than \<open>2^63\<close> bytes), no slice of \<open>trimRead\<close> is
  out of range: the function does not panic. Outside these conditions a slice can be out
  of range: with \<open>min5Match = 5\<close> and the four-character adapter \<open>ATCC\<close> it panics.
\<close>

theorem trimRead_no_panic:
  "(0 \<le> sint min5Match \<and> sint min5Match \<le> int (length adapter) \<and>
    0 \<le> sint trim5 \<and> 0 \<le> sint trim3 \<and> sint trim5 + sint trim3 \<le> 2 ^ 63 \<and>
    1 \<le> sint minLen \<and>
    length (Quality read) = length (Sequence read) \<and> length (Sequence read) < 2 ^ 63 \<longrightarrow>
      go_slice adapter 0 (sint min5Match) \<noteq> None \<and>
      trimRead read adapter minLen trim5 trim3 min5Match maxError \<noteq> Panic)
   \<and> trimRead \<lparr>Header = ''@Header'', Sequence = ''ATCGATCC'', Quality = ''FFFFFFFF''\<rparr>
         ''ATCC'' 2 0 0 5 (Finite (1 / 10)) = Panic"
proof (intro conjI impI)
  assume a: "0 \<le> sint min5Match \<and> sint min5Match \<le> int (length adapter) \<and>
    0 \<le> sint trim5 \<and> 0 \<le> sint trim3 \<and> sint trim5 + sint trim3 \<le> 2 ^ 63 \<and>
    1 \<le> sint minLen \<and>
    length (Quality read) = length (Sequence read) \<and> length (Sequence read) < 2 ^ 63"
  then have pre: "go_slice adapter 0 (sint min5Match) = Some (take (nat (sint min5Match)) adapter)"
    by (simp add: go_slice_prefix)
  then show "go_slice adapter 0 (sint min5Match) \<noteq> None" by simp
  show "trimRead read adapter minLen trim5 trim3 min5Match maxError \<noteq> Panic"
  proof (cases rule: trimRead_cases [of adapter min5Match read minLen trim5 trim3 maxError])
    case PrefixPanic
    with pre show ?thesis by simp
  next
    case (SlicePanic p i)
    from indexFrom_Some_bound [OF SlicePanic(2)] have il: "i \<le> length (Sequence read)" by simp
    with a have i63: "int i < 2 ^ 63" by simp
    have t5: "sint trim5 < 2 ^ 63" using sint_lt [of trim5] by simp
    have len: "sint ((word_of_nat i :: go_int) - trim3 - trim5) = int i - sint trim3 - sint trim5"
      using a i63 by (intro window_length_exact) simp_all
    with SlicePanic(3) a have gt: "sint trim5 < int i - sint trim3" by simp
    have e: "sint ((word_of_nat i :: go_int) - trim3) = int i - sint trim3"
      using a i63 gt by (simp add: sint_window_end signed_take_bit_int_eq_self)
    from a gt il e have
      "go_slice (Sequence read) (sint trim5) (sint ((word_of_nat i :: go_int) - trim3)) \<noteq> None"
      "go_slice (Quality read) (sint trim5) (sint ((word_of_nat i :: go_int) - trim3)) \<noteq> None"
      by (simp_all add: go_slice_def)
    with SlicePanic(4) show ?thesis by simp
  qed simp_all
next
  show "trimRead \<lparr>Header = ''@Header'', Sequence = ''ATCGATCC'', Quality = ''FFFFFFFF''\<rparr>
         ''ATCC'' 2 0 0 5 (Finite (1 / 10)) = Panic"
    by (rule ex_prefix_panic)
qed

theorem trimRead_no_panic_witness:
  "0 \<le> sint (4 :: go_int) \<and> sint (4 :: go_int) \<le> int (length ''ATCC'') \<and>
   0 \<le> sint (1 :: go_int) \<and> sint (1 :: go_int) + sint (1 :: go_int) \<le> 2 ^ 63 \<and>
   1 \<le> sint (2 :: go_int) \<and> length ''FFFFFFFF'' = length ''ATCGATCC'' \<and>
   length ''ATCGATCC'' < 2 ^ 63 \<and>
   go_slice ''ATCC'' 0 (sint (4 :: go_int)) \<noteq> None \<and>
   trimRead \<lparr>Header = ''@Header'', Sequence = ''ATCGATCC'', Quality = ''FFFFFFFF''\<rparr>
      ''ATCC'' 2 1 1 4 (Finite (1 / 10)) \<noteq> Panic"
proof -
  have h: "0 \<le> sint (4 :: go_int) \<and> sint (4 :: go_int) \<le> int (length ''ATCC'') \<and>
    0 \<le> sint (1 :: go_int) \<and> 0 \<le> sint (1 :: go_int) \<and>
    sint (1 :: go_int) + sint (1 :: go_int) \<le> 2 ^ 63 \<and>
    1 \<le> sint (2 :: go_int) \<and>
    length (Quality \<lparr>Header = ''@Header'', Sequence = ''ATCGATCC'', Quality = ''FFFFFFFF''\<rparr>)
      = length (Sequence \<lparr>Header = ''@Header'', Sequence = ''ATCGATCC'', Quality = ''FFFFFFFF''\<rparr>) \<and>
    length (Sequence \<lparr>Header = ''@Header'', Sequence = ''ATCGATCC'', Quality = ''FFFFFFFF''\<rparr>) < 2 ^ 63"
    by simp
  note t = trimRead_no_panic
    [of 4 "''ATCC''" 1 1 2
        "\<lparr>Header = ''@Header'', Sequence = ''ATCGATCC'', Quality = ''FFFFFFFF''\<rparr>"
        "Finite (1 / 10)", THEN conjunct1, rule_format, OF h]
  from t h show ?thesis by simp
qed

theorem trimRead_overflow_counterexample:
  "0 \<le> sint (1 :: go_int) \<and> sint (1 :: go_int) \<le> int (length ''A'') \<and>
   0 \<le> sint (9223372036854775807 :: go_int) \<and>
   1 \<le> sint (1 :: go_int) \<and> length ''F'' = length ''A'' \<and>
   trimRead \<lparr>Header = ''@Header'', Sequence = ''A'', Quality = ''F''\<rparr>
       ''A'' 1 9223372036854775807 9223372036854775807 1 (Finite (1 / 10)) = Panic"
  using ex_overflow by simp

text \<open>
  Claim C7, as amended. The parsing loop takes the stream in records of four lines (when
  the stream ends inside the last record, the missing lines are read as empty). When
  every line of the stream is shorter than the buffer of the scanner (65536 bytes), it
  returns an error exactly when some record fails one of the three checks (identifier
  starting with \<open>@\<close>, separator equal to \<open>+\<close>, sequence and quality of equal length);
  the error is that of the first such record, and nothing after that record is looked
  at: two such streams that agree up to and including it give the same result. A stream
  with a longer line always gives an error. A run of either version returns an error
  other than a failed write exactly when the parsing does, whatever the trimming
  parameters are, so no rejection of a read leads to one.
\<close>

theorem structural_errors:
  "(short_lines ls \<longrightarrow>
      (parseAndDispatch bsz ls = Inl e \<longleftrightarrow>
         (\<exists>k < length (records ls). (\<forall>j < k. wellformed (records ls ! j)) \<and>
             \<not> wellformed (records ls ! k) \<and> e = record_error (records ls ! k))) \<and>
      ((\<exists>e'. parseAndDispatch bsz ls = Inl e') \<longleftrightarrow> \<not> list_all wellformed (records ls)))
   \<and> (\<not> short_lines ls \<longrightarrow> (\<exists>e'. parseAndDispatch bsz ls = Inl e'))
   \<and> (length ls = 4 * n \<longrightarrow>
        length (records ls) = n \<and>
        (\<forall>i < n. records ls ! i = (dropCR (ls ! (4 * i)), dropCR (ls ! (4 * i + 1)),
                                   dropCR (ls ! (4 * i + 2)), dropCR (ls ! (4 * i + 3)))))
   \<and> (short_lines ls \<and> short_lines ls' \<and>
       k < length (records ls) \<and> (\<forall>j < k. wellformed (records ls ! j)) \<and>
       \<not> wellformed (records ls ! k) \<and>
       take (Suc k) (records ls') = take (Suc k) (records ls) \<longrightarrow>
         parseAndDispatch bsz ls' = parseAndDispatch bsz ls)
   \<and> (ProcessReadsFast p ls wr (Inl e, wr') \<and> e \<noteq> WriteError
        \<longleftrightarrow> parseAndDispatch batchSize ls = Inl e \<and> wr' = wr)
   \<and> (ProcessReadsFast_stream p ls wr (Inl e, wr')
        \<longleftrightarrow> parseAndDispatch streamBatchSize ls = Inl e \<and> wr' = wr)"
proof (intro conjI impI)
  assume sl: "short_lines ls"
  show "parseAndDispatch bsz ls = Inl e \<longleftrightarrow>
      (\<exists>k < length (records ls). (\<forall>j < k. wellformed (records ls ! j)) \<and>
          \<not> wellformed (records ls ! k) \<and> e = record_error (records ls ! k))"
    using sl by (rule parseAndDispatch_Inl_iff)
  have "(\<exists>e'. parseAndDispatch bsz ls = Inl e') \<longleftrightarrow>
      (\<exists>k < length (records ls). (\<forall>j < k. wellformed (records ls ! j)) \<and>
          \<not> wellformed (records ls ! k))"
    unfolding parseAndDispatch_Inl_iff [OF sl] by blast
  then show "(\<exists>e'. parseAndDispatch bsz ls = Inl e') \<longleftrightarrow> \<not> list_all wellformed (records ls)"
    by (simp only: first_bad_iff)
next
  assume "\<not> short_lines ls"
  then show "\<exists>e'. parseAndDispatch bsz ls = Inl e'" by (rule parseAndDispatch_long)
next
  assume "length ls = 4 * n"
  then show "length (records ls) = n"
    using records_exact [of ls n] by blast
next
  assume "length ls = 4 * n"
  then show "\<forall>i < n. records ls ! i = (dropCR (ls ! (4 * i)), dropCR (ls ! (4 * i + 1)),
                                   dropCR (ls ! (4 * i + 2)), dropCR (ls ! (4 * i + 3)))"
    using records_exact [of ls n] by blast
next
  assume "short_lines ls \<and> short_lines ls' \<and>
       k < length (records ls) \<and> (\<forall>j < k. wellformed (records ls ! j)) \<and>
       \<not> wellformed (records ls ! k) \<and>
       take (Suc k) (records ls') = take (Suc k) (records ls)"
  then show "parseAndDispatch bsz ls' = parseAndDispatch bsz ls"
    using parse_same_prefix [of ls ls' k bsz] by simp
next
  show "ProcessReadsFast p ls wr (Inl e, wr') \<and> e \<noteq> WriteError
        \<longleftrightarrow> parseAndDispatch batchSize ls = Inl e \<and> wr' = wr"
    unfolding ProcessReadsFast_def by (rule runBuffered_Inl_iff)
next
  show "ProcessReadsFast_stream p ls wr (Inl e, wr')
        \<longleftrightarrow> parseAndDispatch streamBatchSize ls = Inl e \<and> wr' = wr"
    unfolding ProcessReadsFast_stream_def by (rule runStream_Inl_iff)
qed

theorem structural_errors_witness:
  "short_lines [''@a'', ''AC'', ''+'', ''FF'', ''b'', ''G'', ''+'', ''F'']
   \<and> short_lines [''@a'', ''AC'', ''+'', ''FF'', ''b'', ''G'', ''+'', ''F'', ''@c'', ''T'', ''+'', ''F'']
   \<and> length [''@a'', ''AC'', ''+'', ''FF'', ''b'', ''G'', ''+'', ''F''] = 4 * 2
   \<and> records [''@a'', ''AC'', ''+'', ''FF'', ''b'', ''G'', ''+'', ''F'']
       = [(''@a'', ''AC'', ''+'', ''FF''), (''b'', ''G'', ''+'', ''F'')]
   \<and> wellformed (''@a'', ''AC'', ''+'', ''FF'') \<and> \<not> wellformed (''b'', ''G'', ''+'', ''F'')
   \<and> parseAndDispatch batchSize [''@a'', ''AC'', ''+'', ''FF'', ''b'', ''G'', ''+'', ''F'']
       = Inl (BadHeader ''b'')
   \<and> parseAndDispatch batchSize
        [''@a'', ''AC'', ''+'', ''FF'', ''b'', ''G'', ''+'', ''F'', ''@c'', ''T'', ''+'', ''F'']
       = parseAndDispatch batchSize [''@a'', ''AC'', ''+'', ''FF'', ''b'', ''G'', ''+'', ''F'']
   \<and> ProcessReadsFast test_params [''@a'', ''AC'', ''+'', ''FF'', ''b'', ''G'', ''+'', ''F'']
       \<lparr>written = [], budget = 0\<rparr> (Inl (BadHeader ''b''), \<lparr>written = [], budget = 0\<rparr>)
   \<and> ProcessReadsFast_stream test_params [''@a'', ''AC'', ''+'', ''FF'', ''b'', ''G'', ''+'', ''F'']
       \<lparr>written = [], budget = 0\<rparr> (Inl (BadHeader ''b''), \<lparr>written = [], budget = 0\<rparr>)
   \<and> \<not> short_lines [replicate 65536 (CHR ''@'')]
   \<and> (\<exists>e'. parseAndDispatch batchSize [replicate 65536 (CHR ''@'')] = Inl e')"
proof -
  let ?ls = "[''@a'', ''AC'', ''+'', ''FF'', ''b'', ''G'', ''+'', ''F'']"
  let ?ls' = "[''@a'', ''AC'', ''+'', ''FF'', ''b'', ''G'', ''+'', ''F'', ''@c'', ''T'', ''+'', ''F'']"
  let ?long = "[replicate 65536 (CHR ''@'')]"
  let ?w = "\<lparr>written = [], budget = 0\<rparr>"
  have s: "short_lines ?ls" and s': "short_lines ?ls'" and nl: "\<not> short_lines ?long"
    by (simp_all add: MaxScanTokenSize_def)
  have w0: "wellformed (''@a'', ''AC'', ''+'', ''FF'')" by (simp add: wellformed_def)
  have w1: "\<not> wellformed (''b'', ''G'', ''+'', ''F'')" by (simp add: wellformed_def)
  have e1: "record_error (''b'', ''G'', ''+'', ''F'') = BadHeader ''b''"
    by (simp add: record_error_def)
  have r': "records ?ls' = [(''@a'', ''AC'', ''+'', ''FF''), (''b'', ''G'', ''+'', ''F''),
      (''@c'', ''T'', ''+'', ''F'')]"
    by (simp add: line_def dropCR_def)
  have l: "length ?ls = 4 * 2" by simp
  have h: "\<exists>k < length (records ?ls). (\<forall>j < k. wellformed (records ?ls ! j)) \<and>
          \<not> wellformed (records ?ls ! k) \<and> BadHeader ''b'' = record_error (records ?ls ! k)"
    unfolding records_two_bad using w0 w1 e1 by (intro exI [of _ 1]) simp
  have h4: "short_lines ?ls \<and> short_lines ?ls' \<and>
       1 < length (records ?ls) \<and> (\<forall>j < 1. wellformed (records ?ls ! j)) \<and>
       \<not> wellformed (records ?ls ! 1) \<and>
       take (Suc 1) (records ?ls') = take (Suc 1) (records ?ls)"
    unfolding records_two_bad r' using w0 w1 s s' by simp
  note t = structural_errors [of ?ls batchSize "BadHeader ''b''" 2 ?ls' 1 test_params ?w ?w]
  note ts = structural_errors [of ?ls streamBatchSize "BadHeader ''b''" 2 ?ls' 1 test_params ?w ?w]
  note tl = structural_errors [of ?long batchSize "BadHeader ''b''" 2 ?ls' 1 test_params ?w ?w]
  from t s h have parse: "parseAndDispatch batchSize ?ls = Inl (BadHeader ''b'')" by blast
  from ts s h have parseS: "parseAndDispatch streamBatchSize ?ls = Inl (BadHeader ''b'')" by blast
  from t l have n: "length (records ?ls) = 2" by blast
  from t h4 have same: "parseAndDispatch batchSize ?ls' = parseAndDispatch batchSize ?ls" by blast
  from t parse have run: "ProcessReadsFast test_params ?ls ?w (Inl (BadHeader ''b''), ?w)" by blast
  from ts parseS have runS: "ProcessReadsFast_stream test_params ?ls ?w (Inl (BadHeader ''b''), ?w)"
    by blast
  from tl nl have long: "\<exists>e'. parseAndDispatch batchSize ?long = Inl e'" by blast
  from s s' nl parse same run runS long w0 w1 records_two_bad show ?thesis by simp
qed

text \<open>
  Without the condition on the lines the claim fails. In a record of four lines with a
  sequence and a quality of 65536 characters each, all three checks hold, but the
  scanner stops at the sequence line: the run reads the first 65536 bytes of that line
  in the place of the separator and returns the error of the separator check. And a
  well-formed record whose identifier line has 65536 characters ends the run with the
  error of the scanner, which is none of the three.
\<close>

theorem structural_errors_counterexample:
  "list_all wellformed
     (records [''@r'', replicate 65536 (CHR ''A''), ''+'', replicate 65536 (CHR ''F'')])
   \<and> parseAndDispatch batchSize [''@r'', replicate 65536 (CHR ''A''), ''+'', replicate 65536 (CHR ''F'')]
       = Inl (BadSeparator (replicate 65536 (CHR ''A'')))
   \<and> ProcessReadsFast test_params
        [''@r'', replicate 65536 (CHR ''A''), ''+'', replicate 65536 (CHR ''F'')]
        \<lparr>written = [], budget = 4\<rparr>
        (Inl (BadSeparator (replicate 65536 (CHR ''A''))), \<lparr>written = [], budget = 4\<rparr>)
   \<and> ProcessReadsFast_stream test_params
        [''@r'', replicate 65536 (CHR ''A''), ''+'', replicate 65536 (CHR ''F'')]
        \<lparr>written = [], budget = 4\<rparr>
        (Inl (BadSeparator (replicate 65536 (CHR ''A''))), \<lparr>written = [], budget = 4\<rparr>)
   \<and> list_all wellformed
       (records [CHR ''@'' # replicate 65535 (CHR ''r''), ''ACGT'', ''+'', ''FFFF''])
   \<and> parseAndDispatch batchSize [CHR ''@'' # replicate 65535 (CHR ''r''), ''ACGT'', ''+'', ''FFFF'']
       = Inl ReadError
   \<and> ProcessReadsFast test_params
        [CHR ''@'' # replicate 65535 (CHR ''r''), ''ACGT'', ''+'', ''FFFF'']
        \<lparr>written = [], budget = 4\<rparr> (Inl ReadError, \<lparr>written = [], budget = 4\<rparr>)"
proof -
  let ?a = "replicate 65536 (CHR ''A'')"
  let ?f = "replicate 65536 (CHR ''F'')"
  let ?h = "CHR ''@'' # replicate 65535 (CHR ''r'')"
  let ?w = "\<lparr>written = [], budget = 4\<rparr>"
  have da: "dropCR ?a = ?a" and df: "dropCR ?f = ?f" and dh: "dropCR ?h = ?h"
    by (simp_all add: dropCR_def)
  have wf1: "list_all wellformed (records [''@r'', ?a, ''+'', ?f])"
    by (simp add: line_def da df wellformed_def) (simp add: dropCR_def)
  have wf2: "list_all wellformed (records [?h, ''ACGT'', ''+'', ''FFFF''])"
    by (simp add: line_def dh wellformed_def) (simp add: dropCR_def)
  have ne: "?a \<noteq> ''+''"
  proof
    assume "?a = ''+''"
    then have "length ?a = length ''+''" by (rule arg_cong)
    then show False by simp
  qed
  have p1: "parseAndDispatch bsz [''@r'', ?a, ''+'', ?f] = Inl (BadSeparator ?a)" for bsz
    unfolding parseAndDispatch_def NewScanner_def
    by (subst scanLoop.simps)
       (simp add: Scan_def readRecord_def Text_def Let_def MaxScanTokenSize_def da ne,
        simp add: dropCR_def)
  have p2: "parseAndDispatch bsz [?h, ''ACGT'', ''+'', ''FFFF''] = Inl ReadError" for bsz
    unfolding parseAndDispatch_def NewScanner_def
    by (subst scanLoop.simps) (simp add: Scan_def MaxScanTokenSize_def Scanner_Err_def)
  have r1: "ProcessReadsFast test_params [''@r'', ?a, ''+'', ?f] ?w (Inl (BadSeparator ?a), ?w)"
    unfolding ProcessReadsFast_def using p1 by (rule runBuffered.structural)
  have r2: "ProcessReadsFast_stream test_params [''@r'', ?a, ''+'', ?f] ?w (Inl (BadSeparator ?a), ?w)"
    unfolding ProcessReadsFast_stream_def using p1 by (rule runStream.structuralS)
  have r3: "ProcessReadsFast test_params [?h, ''ACGT'', ''+'', ''FFFF''] ?w (Inl ReadError, ?w)"
    unfolding ProcessReadsFast_def using p2 by (rule runBuffered.structural)
  from wf1 wf2 p1 p2 r1 r2 r3 show ?thesis by blast
qed

text \<open>
  Claim C2. Every run that returns without an error prints statistics with
  \<open>total = trimmed + adapterMissing + tooShort + lowQuality\<close> (in the buffering and in
  the streaming version, for every schedule of the goroutines): \<open>total\<close> is the number
  of records parsed, and one iteration of \<open>processBatch\<close> either appends one trimmed
  read or adds one to exactly one of the three rejection counters. Such runs exist: on a
  well-formed input of lines shorter than the scanner's buffer on which \<open>trimRead\<close>
  does not panic, the buffering version returns the statistics when its writes succeed,
  the streaming version in any case.
\<close>

theorem statistics_invariant:
  "(ProcessReadsFast p ls wr (Inr stats, wr') \<longrightarrow>
      total stats = trimmed stats + adapterMissing stats + tooShort stats + lowQuality stats \<and>
      total stats = word_of_nat (length (records ls)))
   \<and> (ProcessReadsFast_stream p ls wr (Inr stats, wr') \<longrightarrow>
      total stats = trimmed stats + adapterMissing stats + tooShort stats + lowQuality stats \<and>
      total stats = word_of_nat (length (records ls)))
   \<and> (processOne p r st = Some st' \<longrightarrow>
        (\<exists>t. trimmedReads st' = trimmedReads st @ [t] \<and>
            adapterMissingCount st' = adapterMissingCount st \<and>
            tooShortCount st' = tooShortCount st \<and> lowQualityCount st' = lowQualityCount st)
       \<or> (trimmedReads st' = trimmedReads st \<and>
            adapterMissingCount st' = adapterMissingCount st + 1 \<and>
            tooShortCount st' = tooShortCount st \<and> lowQualityCount st' = lowQualityCount st)
       \<or> (trimmedReads st' = trimmedReads st \<and>
            adapterMissingCount st' = adapterMissingCount st \<and>
            tooShortCount st' = tooShortCount st + 1 \<and> lowQualityCount st' = lowQualityCount st)
       \<or> (trimmedReads st' = trimmedReads st \<and>
            adapterMissingCount st' = adapterMissingCount st \<and>
            tooShortCount st' = tooShortCount st \<and> lowQualityCount st' = lowQualityCount st + 1))
   \<and> (short_lines ls \<and> list_all wellformed (records ls) \<and>
       (\<forall>x \<in> set (map to_read (records ls)). trim p x \<noteq> Panic) \<and>
       4 * length (survivors p (map to_read (records ls))) \<le> budget wr \<longrightarrow>
         (\<exists>stats2 wr2. ProcessReadsFast p ls wr (Inr stats2, wr2)))
   \<and> (short_lines ls \<and> list_all wellformed (records ls) \<and>
       (\<forall>x \<in> set (map to_read (records ls)). trim p x \<noteq> Panic) \<longrightarrow>
         (\<exists>stats2 wr2. ProcessReadsFast_stream p ls wr (Inr stats2, wr2)))"
proof (intro conjI impI)
  assume "ProcessReadsFast p ls wr (Inr stats, wr')"
  then have r: "runBuffered batchSize p ls wr (Inr stats, wr')"
    by (simp add: ProcessReadsFast_def)
  from runBuffered_stats(1) [OF r]
  show "total stats = trimmed stats + adapterMissing stats + tooShort stats + lowQuality stats" .
  from runBuffered_stats(2) [OF r]
  show "total stats = word_of_nat (length (records ls))" .
next
  assume "ProcessReadsFast_stream p ls wr (Inr stats, wr')"
  then have r: "runStream streamBatchSize p ls wr (Inr stats, wr')"
    by (simp add: ProcessReadsFast_stream_def)
  from runStream_stats(1) [OF r]
  show "total stats = trimmed stats + adapterMissing stats + tooShort stats + lowQuality stats" .
  from runStream_stats(2) [OF r]
  show "total stats = word_of_nat (length (records ls))" .
next
  assume "processOne p r st = Some st'"
  then show "(\<exists>t. trimmedReads st' = trimmedReads st @ [t] \<and>
            adapterMissingCount st' = adapterMissingCount st \<and>
            tooShortCount st' = tooShortCount st \<and> lowQualityCount st' = lowQualityCount st)
       \<or> (trimmedReads st' = trimmedReads st \<and>
            adapterMissingCount st' = adapterMissingCount st + 1 \<and>
            tooShortCount st' = tooShortCount st \<and> lowQualityCount st' = lowQualityCount st)
       \<or> (trimmedReads st' = trimmedReads st \<and>
            adapterMissingCount st' = adapterMissingCount st \<and>
            tooShortCount st' = tooShortCount st + 1 \<and> lowQualityCount st' = lowQualityCount st)
       \<or> (trimmedReads st' = trimmedReads st \<and>
            adapterMissingCount st' = adapterMissingCount st \<and>
            tooShortCount st' = tooShortCount st \<and> lowQualityCount st' = lowQualityCount st + 1)"
    by (rule processOne_exactly_one)
next
  assume "short_lines ls \<and> list_all wellformed (records ls) \<and>
       (\<forall>x \<in> set (map to_read (records ls)). trim p x \<noteq> Panic) \<and>
       4 * length (survivors p (map to_read (records ls))) \<le> budget wr"
  then show "\<exists>stats2 wr2. ProcessReadsFast p ls wr (Inr stats2, wr2)"
    using runBuffered_returns [of ls p wr batchSize] by (simp add: ProcessReadsFast_def)
next
  assume "short_lines ls \<and> list_all wellformed (records ls) \<and>
       (\<forall>x \<in> set (map to_read (records ls)). trim p x \<noteq> Panic)"
  then show "\<exists>stats2 wr2. ProcessReadsFast_stream p ls wr (Inr stats2, wr2)"
    using runStream_returns [of ls p streamBatchSize wr] by (simp add: ProcessReadsFast_stream_def)
qed

theorem statistics_invariant_witness:
  "ProcessReadsFast test_params test_input \<lparr>written = [], budget = 4\<rparr>
     (Inr \<lparr>total = 1, trimmed = 1, adapterMissing = 0, tooShort = 0, lowQuality = 0\<rparr>,
      \<lparr>written = fastqText test_trimmed, budget = 0\<rparr>)
   \<and> ProcessReadsFast_stream test_params test_input \<lparr>written = [], budget = 4\<rparr>
     (Inr \<lparr>total = 1, trimmed = 1, adapterMissing = 0, tooShort = 0, lowQuality = 0\<rparr>,
      \<lparr>written = fastqText test_trimmed, budget = 0\<rparr>)
   \<and> total \<lparr>total = 1, trimmed = 1, adapterMissing = 0, tooShort = 0, lowQuality = 0\<rparr>
       = trimmed \<lparr>total = 1, trimmed = 1, adapterMissing = 0, tooShort = 0, lowQuality = 0\<rparr>
         + adapterMissing \<lparr>total = 1, trimmed = 1, adapterMissing = 0, tooShort = 0, lowQuality = 0\<rparr>
         + tooShort \<lparr>total = 1, trimmed = 1, adapterMissing = 0, tooShort = 0, lowQuality = 0\<rparr>
         + lowQuality \<lparr>total = 1, trimmed = 1, adapterMissing = 0, tooShort = 0, lowQuality = 0\<rparr>
   \<and> total \<lparr>total = 1, trimmed = 1, adapterMissing = 0, tooShort = 0, lowQuality = 0\<rparr>
       = (word_of_nat (length (records test_input)) :: int64)
   \<and> processOne test_params test_read2 (initBuffered [[test_read2]])
       = Some \<lparr>workers = [[test_read2]], adapterMissingCount = 1, tooShortCount = 0,
               lowQualityCount = 0, trimmedReads = []\<rparr>
   \<and> adapterMissingCount \<lparr>workers = [[test_read2]], adapterMissingCount = 1, tooShortCount = 0,
               lowQualityCount = 0, trimmedReads = []\<rparr>
       = adapterMissingCount (initBuffered [[test_read2]]) + 1
   \<and> short_lines test_input
   \<and> list_all wellformed (records test_input)
   \<and> 4 * length (survivors test_params (map to_read (records test_input)))
        \<le> budget \<lparr>written = [], budget = 4\<rparr>
   \<and> (\<exists>stats2 wr2. ProcessReadsFast test_params test_input \<lparr>written = [], budget = 4\<rparr>
          (Inr stats2, wr2))
   \<and> (\<exists>stats2 wr2. ProcessReadsFast_stream test_params test_input
          \<lparr>written = [], budget = 4\<rparr> (Inr stats2, wr2))"
proof -
  let ?st = "\<lparr>total = 1, trimmed = 1, adapterMissing = 0, tooShort = 0, lowQuality = 0\<rparr> :: Statistics"
  let ?w = "\<lparr>written = [], budget = 4\<rparr>"
  let ?w' = "\<lparr>written = fastqText test_trimmed, budget = 0\<rparr>"
  let ?s' = "\<lparr>workers = [[test_read2]], adapterMissingCount = 1, tooShortCount = 0,
               lowQualityCount = 0, trimmedReads = []\<rparr>"
  have h1: "ProcessReadsFast test_params test_input ?w (Inr ?st, ?w')"
    using run_test_buffered [of ?w] by simp
  have h2: "ProcessReadsFast_stream test_params test_input ?w (Inr ?st, ?w')"
    using run_test_stream [of ?w] by (simp add: writeResult_ok)
  have h3: "processOne test_params test_read2 (initBuffered [[test_read2]]) = Some ?s'"
    by (rule processOne_test)
  note t = statistics_invariant
    [of test_params test_input ?w ?st ?w' test_read2 "initBuffered [[test_read2]]" ?s']
  from t h1 have c1: "total ?st = trimmed ?st + adapterMissing ?st + tooShort ?st + lowQuality ?st
      \<and> total ?st = word_of_nat (length (records test_input))"
    by blast
  from t h2 have c2: "total ?st = trimmed ?st + adapterMissing ?st + tooShort ?st + lowQuality ?st"
    by blast
  from t h3 have c3:
    "(\<exists>t. trimmedReads ?s' = trimmedReads (initBuffered [[test_read2]]) @ [t] \<and>
            adapterMissingCount ?s' = adapterMissingCount (initBuffered [[test_read2]]) \<and>
            tooShortCount ?s' = tooShortCount (initBuffered [[test_read2]]) \<and>
            lowQualityCount ?s' = lowQualityCount (initBuffered [[test_read2]]))
       \<or> (trimmedReads ?s' = trimmedReads (initBuffered [[test_read2]]) \<and>
            adapterMissingCount ?s' = adapterMissingCount (initBuffered [[test_read2]]) + 1 \<and>
            tooShortCount ?s' = tooShortCount (initBuffered [[test_read2]]) \<and>
            lowQualityCount ?s' = lowQualityCount (initBuffered [[test_read2]]))
       \<or> (trimmedReads ?s' = trimmedReads (initBuffered [[test_read2]]) \<and>
            adapterMissingCount ?s' = adapterMissingCount (initBuffered [[test_read2]]) \<and>
            tooShortCount ?s' = tooShortCount (initBuffered [[test_read2]]) + 1 \<and>
            lowQualityCount ?s' = lowQualityCount (initBuffered [[test_read2]]))
       \<or> (trimmedReads ?s' = trimmedReads (initBuffered [[test_read2]]) \<and>
            adapterMissingCount ?s' = adapterMissingCount (initBuffered [[test_read2]]) \<and>
            tooShortCount ?s' = tooShortCount (initBuffered [[test_read2]]) \<and>
            lowQualityCount ?s' = lowQualityCount (initBuffered [[test_read2]]) + 1)"
    by blast
  then have c3': "adapterMissingCount ?s' = adapterMissingCount (initBuffered [[test_read2]]) + 1"
    by (simp add: initBuffered_def)
  have sl: "short_lines test_input"
    by (simp add: test_input_def MaxScanTokenSize_def)
  have wf: "list_all wellformed (records test_input)"
    by (simp add: records_test_input wellformed_def)
  have np: "\<forall>x \<in> set (map to_read (records test_input)). trim test_params x \<noteq> Panic"
    by (simp add: records_test_input to_read_def trim_test_read [unfolded test_read_def])
  have bd: "4 * length (survivors test_params (map to_read (records test_input))) \<le> budget ?w"
    by (simp add: survivors_test_input)
  from t sl wf np bd have c4: "\<exists>stats2 wr2. ProcessReadsFast test_params test_input ?w (Inr stats2, wr2)"
    by blast
  from t sl wf np have c5: "\<exists>stats2 wr2. ProcessReadsFast_stream test_params test_input ?w (Inr stats2, wr2)"
    by blast
  from h1 h2 h3 c1 c2 c3' sl wf bd c4 c5 show ?thesis by blast
qed

text \<open>
  Claim C9. The statistics and the surviving reads do not depend on how the reads are
  cut into batches, nor on the schedule of the goroutines. For two ways of batching the
  same list of reads, any two executions that finish agree on the three rejection
  counters, on the number of trimmed reads and on the trimmed reads as a multiset: in
  the buffering version the slice \<open>trimmedReads\<close>, in the streaming version the reads
  the writer has received. For whole runs on the same input with two batch sizes, the
  printed statistics are equal and the outputs hold the same reads, possibly in another
  order. Whether an execution can finish does not depend on the batching either: one
  does exactly when \<open>trimRead\<close> panics on none of the reads.
\<close>

theorem batching_independent:
  "(concat bs1 = concat bs2 \<and>
    rtranclp (step p) (initBuffered bs1) f1 \<and> joined f1 \<and>
    rtranclp (step p) (initBuffered bs2) f2 \<and> joined f2 \<longrightarrow>
      adapterMissingCount f1 = adapterMissingCount f2 \<and>
      tooShortCount f1 = tooShortCount f2 \<and>
      lowQualityCount f1 = lowQualityCount f2 \<and>
      length (trimmedReads f1) = length (trimmedReads f2) \<and>
      mset (trimmedReads f1) = mset (trimmedReads f2))
   \<and> (concat bs1 = concat bs2 \<and>
    rtranclp (stepS p) (initStream bs1 wr) g1 \<and> joined g1 \<and> resultsChan g1 = [] \<and>
    rtranclp (stepS p) (initStream bs2 wr) g2 \<and> joined g2 \<and> resultsChan g2 = [] \<longrightarrow>
      adapterMissingCount g1 = adapterMissingCount g2 \<and>
      tooShortCount g1 = tooShortCount g2 \<and>
      lowQualityCount g1 = lowQualityCount g2 \<and>
      totalTrimmedReads g1 = totalTrimmedReads g2 \<and>
      (\<exists>rs1 rs2. mset rs1 = mset rs2 \<and>
          outWriter g1 = foldl writeResult wr rs1 \<and> outWriter g2 = foldl writeResult wr rs2))
   \<and> (runBuffered b1 p ls wr (Inr s1, w1) \<and> runBuffered b2 p ls wr (Inr s2, w2) \<longrightarrow>
      s1 = s2 \<and>
      (\<exists>rs1 rs2. mset rs1 = mset rs2 \<and>
          written w1 = written wr @ concat (map fastqText rs1) \<and>
          written w2 = written wr @ concat (map fastqText rs2)))
   \<and> (runStream b1 p ls wr (Inr s1, w1) \<and> runStream b2 p ls wr (Inr s2, w2) \<longrightarrow>
      s1 = s2 \<and>
      (\<exists>rs1 rs2. mset rs1 = mset rs2 \<and>
          w1 = foldl writeResult wr rs1 \<and> w2 = foldl writeResult wr rs2))
   \<and> ((\<exists>fin. rtranclp (step p) (initBuffered bs1) fin \<and> joined fin)
        \<longleftrightarrow> (\<forall>x \<in> set (concat bs1). trim p x \<noteq> Panic))
   \<and> ((\<exists>fin. rtranclp (stepS p) (initStream bs1 wr) fin \<and> joined fin \<and> resultsChan fin = [])
        \<longleftrightarrow> (\<forall>x \<in> set (concat bs1). trim p x \<noteq> Panic))"
proof (intro conjI impI)
  assume a: "concat bs1 = concat bs2 \<and>
    rtranclp (step p) (initBuffered bs1) f1 \<and> joined f1 \<and>
    rtranclp (step p) (initBuffered bs2) f2 \<and> joined f2"
  then have e1: "rtranclp (step p) (initBuffered bs1) f1" "joined f1"
    and e2: "rtranclp (step p) (initBuffered bs2) f2" "joined f2"
    and c: "concat bs1 = concat bs2" by simp_all
  note r1 = buffered_final [OF e1]
  note r2 = buffered_final [OF e2]
  show "adapterMissingCount f1 = adapterMissingCount f2" using r1(2) r2(2) c by simp
  show "tooShortCount f1 = tooShortCount f2" using r1(3) r2(3) c by simp
  show "lowQualityCount f1 = lowQualityCount f2" using r1(4) r2(4) c by simp
  show m: "mset (trimmedReads f1) = mset (trimmedReads f2)" using r1(1) r2(1) c by simp
  then show "length (trimmedReads f1) = length (trimmedReads f2)" by (metis size_mset)
next
  assume a: "concat bs1 = concat bs2 \<and>
    rtranclp (stepS p) (initStream bs1 wr) g1 \<and> joined g1 \<and> resultsChan g1 = [] \<and>
    rtranclp (stepS p) (initStream bs2 wr) g2 \<and> joined g2 \<and> resultsChan g2 = []"
  then have e1: "rtranclp (stepS p) (initStream bs1 wr) g1" "joined g1" "resultsChan g1 = []"
    and e2: "rtranclp (stepS p) (initStream bs2 wr) g2" "joined g2" "resultsChan g2 = []"
    and c: "concat bs1 = concat bs2" by simp_all
  note r1 = stream_final [OF e1]
  note r2 = stream_final [OF e2]
  show "adapterMissingCount g1 = adapterMissingCount g2" using r1(1) r2(1) c by simp
  show "tooShortCount g1 = tooShortCount g2" using r1(2) r2(2) c by simp
  show "lowQualityCount g1 = lowQualityCount g2" using r1(3) r2(3) c by simp
  show "totalTrimmedReads g1 = totalTrimmedReads g2" using r1(4) r2(4) c by simp
  from r1(6) obtain rs1 where
    "outWriter g1 = foldl writeResult wr rs1" "mset rs1 = mset (survivors p (concat bs1))"
    by blast
  moreover from r2(6) obtain rs2 where
    "outWriter g2 = foldl writeResult wr rs2" "mset rs2 = mset (survivors p (concat bs2))"
    by blast
  ultimately show "\<exists>rs1 rs2. mset rs1 = mset rs2 \<and>
          outWriter g1 = foldl writeResult wr rs1 \<and> outWriter g2 = foldl writeResult wr rs2"
    using c by (intro exI [of _ rs1] exI [of _ rs2]) simp
next
  assume a: "runBuffered b1 p ls wr (Inr s1, w1) \<and> runBuffered b2 p ls wr (Inr s2, w2)"
  then have x1: "runBuffered b1 p ls wr (Inr s1, w1)" and x2: "runBuffered b2 p ls wr (Inr s2, w2)"
    by simp_all
  note r1 = runBuffered_stats [OF x1]
  note r2 = runBuffered_stats [OF x2]
  show "s1 = s2"
    by (rule Statistics_eqI) (simp_all add: r1(2-6) r2(2-6))
  from r1(7) obtain rs1 where
    "mset rs1 = mset (survivors p (map to_read (records ls)))"
    "written w1 = written wr @ concat (map fastqText rs1)" by blast
  moreover from r2(7) obtain rs2 where
    "mset rs2 = mset (survivors p (map to_read (records ls)))"
    "written w2 = written wr @ concat (map fastqText rs2)" by blast
  ultimately show "\<exists>rs1 rs2. mset rs1 = mset rs2 \<and>
          written w1 = written wr @ concat (map fastqText rs1) \<and>
          written w2 = written wr @ concat (map fastqText rs2)"
    by (intro exI [of _ rs1] exI [of _ rs2]) simp
next
  assume a: "runStream b1 p ls wr (Inr s1, w1) \<and> runStream b2 p ls wr (Inr s2, w2)"
  then have x1: "runStream b1 p ls wr (Inr s1, w1)" and x2: "runStream b2 p ls wr (Inr s2, w2)"
    by simp_all
  note r1 = runStream_stats [OF x1]
  note r2 = runStream_stats [OF x2]
  show "s1 = s2"
    by (rule Statistics_eqI) (simp_all add: r1(2-6) r2(2-6))
  from r1(7) obtain rs1 where
    "mset rs1 = mset (survivors p (map to_read (records ls)))"
    "w1 = foldl writeResult wr rs1" by blast
  moreover from r2(7) obtain rs2 where
    "mset rs2 = mset (survivors p (map to_read (records ls)))"
    "w2 = foldl writeResult wr rs2" by blast
  ultimately show "\<exists>rs1 rs2. mset rs1 = mset rs2 \<and>
          w1 = foldl writeResult wr rs1 \<and> w2 = foldl writeResult wr rs2"
    by (intro exI [of _ rs1] exI [of _ rs2]) simp
next
  show "(\<exists>fin. rtranclp (step p) (initBuffered bs1) fin \<and> joined fin)
        \<longleftrightarrow> (\<forall>x \<in> set (concat bs1). trim p x \<noteq> Panic)"
    by (rule buffered_finishes_iff)
next
  show "(\<exists>fin. rtranclp (stepS p) (initStream bs1 wr) fin \<and> joined fin \<and> resultsChan fin = [])
        \<longleftrightarrow> (\<forall>x \<in> set (concat bs1). trim p x \<noteq> Panic)"
    by (rule stream_finishes_iff)
qed

theorem batching_independent_witness:
  "concat [[test_read, test_read2]] = concat [[test_read], [test_read2]]
   \<and> rtranclp (step test_params) (initBuffered [[test_read, test_read2]])
        \<lparr>workers = [[]], adapterMissingCount = 1, tooShortCount = 0, lowQualityCount = 0,
         trimmedReads = [test_trimmed]\<rparr>
   \<and> joined \<lparr>workers = [[]], adapterMissingCount = 1, tooShortCount = 0, lowQualityCount = 0,
         trimmedReads = [test_trimmed]\<rparr>
   \<and> rtranclp (step test_params) (initBuffered [[test_read], [test_read2]])
        \<lparr>workers = [[], []], adapterMissingCount = 1, tooShortCount = 0, lowQualityCount = 0,
         trimmedReads = [test_trimmed]\<rparr>
   \<and> joined \<lparr>workers = [[], []], adapterMissingCount = 1, tooShortCount = 0, lowQualityCount = 0,
         trimmedReads = [test_trimmed]\<rparr>
   \<and> mset (trimmedReads \<lparr>workers = [[]], adapterMissingCount = 1, tooShortCount = 0,
                lowQualityCount = 0, trimmedReads = [test_trimmed]\<rparr>)
       = mset (trimmedReads \<lparr>workers = [[], []], adapterMissingCount = 1, tooShortCount = 0,
                lowQualityCount = 0, trimmedReads = [test_trimmed]\<rparr>)
   \<and> rtranclp (stepS test_params) (initStream [[test_read, test_read2]] \<lparr>written = [], budget = 4\<rparr>)
        \<lparr>workers = [[]], adapterMissingCount = 1, tooShortCount = 0, lowQualityCount = 0,
         resultsChan = [], outWriter = writeResult \<lparr>written = [], budget = 4\<rparr> test_trimmed,
         totalTrimmedReads = 1\<rparr>
   \<and> rtranclp (stepS test_params) (initStream [[test_read], [test_read2]] \<lparr>written = [], budget = 4\<rparr>)
        \<lparr>workers = [[], []], adapterMissingCount = 1, tooShortCount = 0, lowQualityCount = 0,
         resultsChan = [], outWriter = writeResult \<lparr>written = [], budget = 4\<rparr> test_trimmed,
         totalTrimmedReads = 1\<rparr>
   \<and> (\<exists>rs1 rs2. mset rs1 = mset rs2 \<and>
          writeResult \<lparr>written = [], budget = 4\<rparr> test_trimmed
            = foldl writeResult \<lparr>written = [], budget = 4\<rparr> rs1 \<and>
          writeResult \<lparr>written = [], budget = 4\<rparr> test_trimmed
            = foldl writeResult \<lparr>written = [], budget = 4\<rparr> rs2)
   \<and> runBuffered 1 test_params test_input2 \<lparr>written = [], budget = 4\<rparr>
        (Inr \<lparr>total = 2, trimmed = 1, adapterMissing = 1, tooShort = 0, lowQuality = 0\<rparr>,
         \<lparr>written = fastqText test_trimmed, budget = 0\<rparr>)
   \<and> runBuffered 2 test_params test_input2 \<lparr>written = [], budget = 4\<rparr>
        (Inr \<lparr>total = 2, trimmed = 1, adapterMissing = 1, tooShort = 0, lowQuality = 0\<rparr>,
         \<lparr>written = fastqText test_trimmed, budget = 0\<rparr>)
   \<and> runStream 1 test_params test_input2 \<lparr>written = [], budget = 4\<rparr>
        (Inr \<lparr>total = 2, trimmed = 1, adapterMissing = 1, tooShort = 0, lowQuality = 0\<rparr>,
         \<lparr>written = fastqText test_trimmed, budget = 0\<rparr>)
   \<and> runStream 2 test_params test_input2 \<lparr>written = [], budget = 4\<rparr>
        (Inr \<lparr>total = 2, trimmed = 1, adapterMissing = 1, tooShort = 0, lowQuality = 0\<rparr>,
         \<lparr>written = fastqText test_trimmed, budget = 0\<rparr>)
   \<and> (\<exists>rs1 rs2. mset rs1 = mset rs2 \<and>
          written \<lparr>written = fastqText test_trimmed, budget = 0\<rparr>
            = written \<lparr>written = [], budget = 4\<rparr> @ concat (map fastqText rs1) \<and>
          written \<lparr>written = fastqText test_trimmed, budget = 0\<rparr>
            = written \<lparr>written = [], budget = 4\<rparr> @ concat (map fastqText rs2))"
proof -
  let ?f1 = "\<lparr>workers = [[]], adapterMissingCount = 1, tooShortCount = 0, lowQualityCount = 0,
         trimmedReads = [test_trimmed]\<rparr>"
  let ?f2 = "\<lparr>workers = [[], []], adapterMissingCount = 1, tooShortCount = 0, lowQualityCount = 0,
         trimmedReads = [test_trimmed]\<rparr>"
  let ?w = "\<lparr>written = [], budget = 4\<rparr>"
  let ?w' = "\<lparr>written = fastqText test_trimmed, budget = 0\<rparr>"
  let ?g1 = "\<lparr>workers = [[]], adapterMissingCount = 1, tooShortCount = 0, lowQualityCount = 0,
         resultsChan = [], outWriter = writeResult ?w test_trimmed, totalTrimmedReads = 1\<rparr>"
  let ?g2 = "\<lparr>workers = [[], []], adapterMissingCount = 1, tooShortCount = 0, lowQualityCount = 0,
         resultsChan = [], outWriter = writeResult ?w test_trimmed, totalTrimmedReads = 1\<rparr>"
  let ?st = "\<lparr>total = 2, trimmed = 1, adapterMissing = 1, tooShort = 0, lowQuality = 0\<rparr> :: Statistics"
  have h1: "concat [[test_read, test_read2]] = concat [[test_read], [test_read2]] \<and>
    rtranclp (step test_params) (initBuffered [[test_read, test_read2]]) ?f1 \<and> joined ?f1 \<and>
    rtranclp (step test_params) (initBuffered [[test_read], [test_read2]]) ?f2 \<and> joined ?f2"
    using steps_one_batch steps_two_batches by (simp add: joined_def)
  have h2: "concat [[test_read, test_read2]] = concat [[test_read], [test_read2]] \<and>
    rtranclp (stepS test_params) (initStream [[test_read, test_read2]] ?w) ?g1 \<and> joined ?g1 \<and>
    resultsChan ?g1 = [] \<and>
    rtranclp (stepS test_params) (initStream [[test_read], [test_read2]] ?w) ?g2 \<and> joined ?g2 \<and>
    resultsChan ?g2 = []"
    using stepsS_one_batch [of ?w] stepsS_two_batches [of ?w] by (simp add: joined_def)
  have h3: "runBuffered 1 test_params test_input2 ?w (Inr ?st, ?w') \<and>
    runBuffered 2 test_params test_input2 ?w (Inr ?st, ?w')"
    using run2_buffered_one run2_buffered_two by simp
  have h4: "runStream 1 test_params test_input2 ?w (Inr ?st, ?w') \<and>
    runStream 2 test_params test_input2 ?w (Inr ?st, ?w')"
    using run2_stream_one run2_stream_two by simp
  note t = batching_independent
    [of "[[test_read, test_read2]]" "[[test_read], [test_read2]]" test_params ?f1 ?f2
        ?w ?g1 ?g2 1 test_input2 ?st ?w' 2 ?st ?w']
  from t h1 have c1: "mset (trimmedReads ?f1) = mset (trimmedReads ?f2)" by blast
  from t [THEN conjunct2, THEN conjunct1, rule_format, OF h2]
  have c2: "\<exists>rs1 rs2. mset rs1 = mset rs2 \<and>
          outWriter ?g1 = foldl writeResult ?w rs1 \<and> outWriter ?g2 = foldl writeResult ?w rs2"
    by blast
  from t [THEN conjunct2, THEN conjunct2, THEN conjunct1, rule_format, OF h3]
  have c3: "\<exists>rs1 rs2. mset rs1 = mset rs2 \<and>
          written ?w' = written ?w @ concat (map fastqText rs1) \<and>
          written ?w' = written ?w @ concat (map fastqText rs2)"
    by blast
  from t [THEN conjunct2, THEN conjunct2, THEN conjunct2, THEN conjunct1, rule_format, OF h4]
  have c4: "?st = ?st" by blast
  from c2 have c2': "\<exists>rs1 rs2. mset rs1 = mset rs2 \<and>
          writeResult ?w test_trimmed = foldl writeResult ?w rs1 \<and>
          writeResult ?w test_trimmed = foldl writeResult ?w rs2"
    by simp
  from h1 h2 h3 h4 c1 c2' c3 show ?thesis by blast
qed

text \<open>
  Claim C3, at the failing input. The input of the repository's test holds one read,
  which survives trimming. With an output on which every write fails, the streaming
  version returns \<open>nil\<close> and statistics that count the read as trimmed, although
  nothing was written: \<open>writeResults\<close> drops the error of \<open>WriteString\<close>. The
  buffering version returns the error on the same input.
\<close>

theorem write_failure_dropped:
  "ProcessReadsFast_stream test_params test_input \<lparr>written = [], budget = 0\<rparr>
     (Inr \<lparr>total = 1, trimmed = 1, adapterMissing = 0, tooShort = 0, lowQuality = 0\<rparr>,
      \<lparr>written = [], budget = 0\<rparr>)
   \<and> WriteString \<lparr>written = [], budget = 0\<rparr> (Header test_trimmed @ newline)
       = (\<lparr>written = [], budget = 0\<rparr>, Some WriteError)
   \<and> ProcessReadsFast test_params test_input \<lparr>written = [], budget = 0\<rparr>
       (Inl WriteError, \<lparr>written = [], budget = 0\<rparr>)"
  using run_test_stream [of "\<lparr>written = [], budget = 0\<rparr>"] run_test_buffered_fails
  by (simp add: writeResult_failed WriteString_def)

end
